theory Spec2Isabelle
  imports Complex_Main
begin

section \<open>Data model\<close>

text \<open>
  The two packers of \<^verbatim>\<open>src/app/utils/packer.algorithm.util.js\<close> work on a binary tree of
  rectangular regions. A node is a JavaScript object with the fields \<^verbatim>\<open>x\<close>, \<^verbatim>\<open>y\<close>,
  \<^verbatim>\<open>width\<close>, \<^verbatim>\<open>height\<close> and, once it has been split, \<^verbatim>\<open>used\<close>, \<^verbatim>\<open>right\<close> and \<^verbatim>\<open>down\<close>.
  A field that was never assigned reads as \<^verbatim>\<open>undefined\<close>: for \<^verbatim>\<open>used\<close> that is a falsy
  value (\<open>False\<close> here), for a child it is \<open>None\<close>.

  Numbers are modelled as exact rationals. JavaScript numbers are IEEE doubles, so the
  products and quotients of \<^verbatim>\<open>growRight\<close> and \<^verbatim>\<open>growDown\<close> are rounded there; every
  concrete run evaluated below uses values on which the double arithmetic is exact.
  A quotient by zero is \<^verbatim>\<open>Infinity\<close> or \<^verbatim>\<open>NaN\<close> in JavaScript and \<open>0\<close> here: the
  theorems about runs assume that the packer is made with positive dimensions, where
  the quotients of \<^verbatim>\<open>init\<close> are numbers.
\<close>

datatype node = Node (node_x: rat) (node_y: rat) (node_width: rat) (node_height: rat)
  (used: bool) (right: "node option") (down: "node option")

text \<open>
  Reading a property of \<^verbatim>\<open>undefined\<close> raises a \<^verbatim>\<open>TypeError\<close>: that is what
  \<^verbatim>\<open>findNode\<close> does when a node is marked used and a child is missing.
\<close>

datatype error = TypeError

text \<open>
  A reference to a node of the tree is the path that leads to it from the root.
\<close>

datatype turn = GoRight | GoDown

text \<open>
  A block of the input array: its \<^verbatim>\<open>width\<close>, its \<^verbatim>\<open>height\<close>, and the \<^verbatim>\<open>fit\<close> attribute
  that \<^verbatim>\<open>fit\<close> writes. The \<^verbatim>\<open>fit\<close> attribute refers to a node of the tree; the fields
  \<^verbatim>\<open>x\<close>, \<^verbatim>\<open>y\<close>, \<^verbatim>\<open>width\<close> and \<^verbatim>\<open>height\<close> of a node are never assigned after the node
  is created, so the node as it is when \<^verbatim>\<open>splitNode\<close> returns it carries the values a
  caller reads later.
\<close>

record block =
  block_width :: rat
  block_height :: rat
  block_fit :: "node option"

record GrowingPacker =
  aspectRatio :: rat
  root :: node

section \<open>The shared tree operations\<close>

text \<open>The object literal \<^verbatim>\<open>{x: .., y: .., width: .., height: ..}\<close>.\<close>

definition region :: "rat \<Rightarrow> rat \<Rightarrow> rat \<Rightarrow> rat \<Rightarrow> node" where
  "region x y width height = Node x y width height False None None"

text \<open>
  \<^verbatim>\<open>findNode\<close> is written twice in the source, with the same text, once in each prototype.
  \<^verbatim>\<open>a || b\<close> yields \<^verbatim>\<open>a\<close> when it is a node and evaluates \<^verbatim>\<open>b\<close> only when \<^verbatim>\<open>a\<close> is
  \<^verbatim>\<open>null\<close>.
\<close>

fun findNode :: "node \<Rightarrow> rat \<Rightarrow> rat \<Rightarrow> error + turn list option" where
  "findNode (Node x y w h u r d) width height =
     (if u then
        (case r of
           None \<Rightarrow> Inl TypeError
         | Some rn \<Rightarrow>
             (case findNode rn width height of
                Inl e \<Rightarrow> Inl e
              | Inr (Some p) \<Rightarrow> Inr (Some (GoRight # p))
              | Inr None \<Rightarrow>
                  (case d of
                     None \<Rightarrow> Inl TypeError
                   | Some dn \<Rightarrow>
                       (case findNode dn width height of
                          Inl e \<Rightarrow> Inl e
                        | Inr (Some p) \<Rightarrow> Inr (Some (GoDown # p))
                        | Inr None \<Rightarrow> Inr None))))
      else if width \<le> w \<and> height \<le> h then Inr (Some [])
      else Inr None)"

text \<open>\<^verbatim>\<open>splitNode\<close>, also written twice with the same text: the node after the three assignments.\<close>

definition splitNode :: "node \<Rightarrow> rat \<Rightarrow> rat \<Rightarrow> node" where
  "splitNode node width height =
     Node (node_x node) (node_y node) (node_width node) (node_height node) True
       (Some (region (node_x node + width) (node_y node) (node_width node - width) height))
       (Some (region (node_x node) (node_y node + height) (node_width node) (node_height node - height)))"

fun nodeAt :: "node \<Rightarrow> turn list \<Rightarrow> node option" where
  "nodeAt n [] = Some n"
| "nodeAt n (GoRight # p) = (case right n of None \<Rightarrow> None | Some r \<Rightarrow> nodeAt r p)"
| "nodeAt n (GoDown # p) = (case down n of None \<Rightarrow> None | Some d \<Rightarrow> nodeAt d p)"

fun modifyAt :: "turn list \<Rightarrow> (node \<Rightarrow> node) \<Rightarrow> node \<Rightarrow> node" where
  "modifyAt [] f n = f n"
| "modifyAt (GoRight # p) f (Node x y w h u r d) =
     Node x y w h u (case r of None \<Rightarrow> None | Some rn \<Rightarrow> Some (modifyAt p f rn)) d"
| "modifyAt (GoDown # p) f (Node x y w h u r d) =
     Node x y w h u r (case d of None \<Rightarrow> None | Some dn \<Rightarrow> Some (modifyAt p f dn))"

text \<open>
  \<^verbatim>\<open>splitNode\<close> assigns to the node that \<^verbatim>\<open>findNode\<close> returned, which is a node of the
  tree: the tree afterwards is the tree with the node at that path replaced.
\<close>

definition splitAt :: "node \<Rightarrow> turn list \<Rightarrow> rat \<Rightarrow> rat \<Rightarrow> node" where
  "splitAt rt p width height = modifyAt p (\<lambda>node. splitNode node width height) rt"

section \<open>Packer (exported as FixedSizePacker)\<close>

text \<open>The only state of a \<^verbatim>\<open>Packer\<close> is \<^verbatim>\<open>this.root\<close>.\<close>

definition Packer_init :: "rat \<Rightarrow> rat \<Rightarrow> node" where
  "Packer_init width height = region 0 0 width height"

text \<open>The body of the loop of \<^verbatim>\<open>Packer.fit\<close>: a block that finds no node keeps its \<^verbatim>\<open>fit\<close>.\<close>

definition Packer_fit_block :: "node \<Rightarrow> block \<Rightarrow> error + node \<times> block" where
  "Packer_fit_block rt b =
     (case findNode rt (block_width b) (block_height b) of
        Inl e \<Rightarrow> Inl e
      | Inr None \<Rightarrow> Inr (rt, b)
      | Inr (Some p) \<Rightarrow>
          (let rt' = splitAt rt p (block_width b) (block_height b)
           in Inr (rt', b\<lparr>block_fit := nodeAt rt' p\<rparr>)))"

fun Packer_fit :: "node \<Rightarrow> block list \<Rightarrow> error + node \<times> block list" where
  "Packer_fit rt [] = Inr (rt, [])"
| "Packer_fit rt (b # blocks) =
     (case Packer_fit_block rt b of
        Inl e \<Rightarrow> Inl e
      | Inr (rt', b') \<Rightarrow>
          (case Packer_fit rt' blocks of
             Inl e \<Rightarrow> Inl e
           | Inr (rt'', blocks') \<Rightarrow> Inr (rt'', b' # blocks')))"

section \<open>GrowingPacker\<close>

definition GrowingPacker_init :: "rat \<Rightarrow> rat \<Rightarrow> GrowingPacker" where
  "GrowingPacker_init width height =
     \<lparr>aspectRatio = (if width / height > 1 then width / height else height / width),
      root = region 0 0 width height\<rparr>"

text \<open>The four constants of \<^verbatim>\<open>growNode\<close>.\<close>

definition canGrowDown :: "GrowingPacker \<Rightarrow> rat \<Rightarrow> rat \<Rightarrow> bool" where
  "canGrowDown this width height \<longleftrightarrow> width \<le> node_width (root this)"

definition canGrowRight :: "GrowingPacker \<Rightarrow> rat \<Rightarrow> rat \<Rightarrow> bool" where
  "canGrowRight this width height \<longleftrightarrow> height \<le> node_height (root this)"

definition shouldGrowRight :: "GrowingPacker \<Rightarrow> rat \<Rightarrow> rat \<Rightarrow> bool" where
  "shouldGrowRight this width height \<longleftrightarrow>
     canGrowRight this width height \<and>
     node_height (root this) * aspectRatio this \<ge> node_width (root this) + width"

definition shouldGrowDown :: "GrowingPacker \<Rightarrow> rat \<Rightarrow> rat \<Rightarrow> bool" where
  "shouldGrowDown this width height \<longleftrightarrow>
     canGrowDown this width height \<and>
     node_width (root this) * (1 / aspectRatio this) \<ge> node_height (root this) + height"

text \<open>
  The common tail of \<^verbatim>\<open>growRight\<close> and \<^verbatim>\<open>growDown\<close>: search the new root, split the node
  found and return it, or return \<^verbatim>\<open>null\<close>.
\<close>

definition findAndSplit :: "GrowingPacker \<Rightarrow> rat \<Rightarrow> rat \<Rightarrow> error + GrowingPacker \<times> node option" where
  "findAndSplit this width height =
     (case findNode (root this) width height of
        Inl e \<Rightarrow> Inl e
      | Inr None \<Rightarrow> Inr (this, None)
      | Inr (Some p) \<Rightarrow>
          (let rt' = splitAt (root this) p width height
           in Inr (this\<lparr>root := rt'\<rparr>, nodeAt rt' p)))"

definition grownRight :: "GrowingPacker \<Rightarrow> rat \<Rightarrow> rat \<Rightarrow> node" where
  "grownRight this width height =
     (let newWidth = node_width (root this) + width;
          newHeight = newWidth * (1 / aspectRatio this)
      in Node 0 0 newWidth newHeight True
           (Some (region (node_width (root this)) 0 width newHeight))
           (Some (root this)))"

definition growRight :: "GrowingPacker \<Rightarrow> rat \<Rightarrow> rat \<Rightarrow> error + GrowingPacker \<times> node option" where
  "growRight this width height =
     findAndSplit (this\<lparr>root := grownRight this width height\<rparr>) width height"

definition grownDown :: "GrowingPacker \<Rightarrow> rat \<Rightarrow> rat \<Rightarrow> node" where
  "grownDown this width height =
     (let newHeight = node_height (root this) + height;
          newWidth = newHeight * aspectRatio this
      in Node 0 0 newWidth newHeight True
           (Some (root this))
           (Some (region 0 (node_height (root this)) newWidth height)))"

definition growDown :: "GrowingPacker \<Rightarrow> rat \<Rightarrow> rat \<Rightarrow> error + GrowingPacker \<times> node option" where
  "growDown this width height =
     findAndSplit (this\<lparr>root := grownDown this width height\<rparr>) width height"

definition growNode :: "GrowingPacker \<Rightarrow> rat \<Rightarrow> rat \<Rightarrow> error + GrowingPacker \<times> node option" where
  "growNode this width height =
     (if shouldGrowRight this width height then growRight this width height
      else if shouldGrowDown this width height then growDown this width height
      else if canGrowRight this width height then growRight this width height
      else if canGrowDown this width height then growDown this width height
      else Inr (this, None))"

text \<open>The body of the loop of \<^verbatim>\<open>GrowingPacker.fit\<close>: \<^verbatim>\<open>block.fit\<close> is assigned on both branches.\<close>

definition GrowingPacker_fit_block :: "GrowingPacker \<Rightarrow> block \<Rightarrow> error + GrowingPacker \<times> block" where
  "GrowingPacker_fit_block this b =
     (case findNode (root this) (block_width b) (block_height b) of
        Inl e \<Rightarrow> Inl e
      | Inr (Some p) \<Rightarrow>
          (let rt' = splitAt (root this) p (block_width b) (block_height b)
           in Inr (this\<lparr>root := rt'\<rparr>, b\<lparr>block_fit := nodeAt rt' p\<rparr>))
      | Inr None \<Rightarrow>
          (case growNode this (block_width b) (block_height b) of
             Inl e \<Rightarrow> Inl e
           | Inr (this', nd) \<Rightarrow> Inr (this', b\<lparr>block_fit := nd\<rparr>)))"

fun GrowingPacker_fit :: "GrowingPacker \<Rightarrow> block list \<Rightarrow> error + GrowingPacker \<times> block list" where
  "GrowingPacker_fit this [] = Inr (this, [])"
| "GrowingPacker_fit this (b # blocks) =
     (case GrowingPacker_fit_block this b of
        Inl e \<Rightarrow> Inl e
      | Inr (this', b') \<Rightarrow>
          (case GrowingPacker_fit this' blocks of
             Inl e \<Rightarrow> Inl e
           | Inr (this'', blocks') \<Rightarrow> Inr (this'', b' # blocks')))"

section \<open>Reading the results\<close>

text \<open>A block as a caller passes it: \<^verbatim>\<open>{width: .., height: ..}\<close>, with no \<^verbatim>\<open>fit\<close> yet.\<close>

definition blk :: "rat \<Rightarrow> rat \<Rightarrow> block" where
  "blk width height = \<lparr>block_width = width, block_height = height, block_fit = None\<rparr>"

text \<open>
  What the caller draws, as the header comment of the source shows it:
  \<^verbatim>\<open>Draw(block.fit.x, block.fit.y, block.width, block.height)\<close>.
\<close>

definition footprint :: "block \<Rightarrow> (rat \<times> rat \<times> rat \<times> rat) option" where
  "footprint b =
     (case block_fit b of
        None \<Rightarrow> None
      | Some n \<Rightarrow> Some (node_x n, node_y n, block_width b, block_height b))"

text \<open>Two footprints overlap when their open rectangles share a point.\<close>

fun overlap :: "rat \<times> rat \<times> rat \<times> rat \<Rightarrow> rat \<times> rat \<times> rat \<times> rat \<Rightarrow> bool" where
  "overlap (x1, y1, w1, h1) (x2, y2, w2, h2) \<longleftrightarrow>
     x1 < x2 + w2 \<and> x2 < x1 + w1 \<and> y1 < y2 + h2 \<and> y2 < y1 + h1"

fun inside :: "rat \<times> rat \<times> rat \<times> rat \<Rightarrow> node \<Rightarrow> bool" where
  "inside (x, y, w, h) rt \<longleftrightarrow>
     0 \<le> x \<and> x + w \<le> node_width rt \<and> 0 \<le> y \<and> y + h \<le> node_height rt"

text \<open>The blocks a caller passes for a list of sizes, none with a \<^verbatim>\<open>fit\<close> yet.\<close>

definition fresh :: "(rat \<times> rat) list \<Rightarrow> block list" where
  "fresh sizes = map (\<lambda>(width, height). blk width height) sizes"

definition positive :: "(rat \<times> rat) list \<Rightarrow> bool" where
  "positive sizes = list_all (\<lambda>(width, height). 0 < width \<and> 0 < height) sizes"

section \<open>Properties of nodes and trees\<close>

text \<open>A property of every node of a tree.\<close>

fun all_nodes :: "(node \<Rightarrow> bool) \<Rightarrow> node \<Rightarrow> bool" where
  "all_nodes P (Node x y w h u r d) \<longleftrightarrow>
     P (Node x y w h u r d) \<and>
     (case r of None \<Rightarrow> True | Some rn \<Rightarrow> all_nodes P rn) \<and>
     (case d of None \<Rightarrow> True | Some dn \<Rightarrow> all_nodes P dn)"

text \<open>
  Two nodes with the same rectangle; two nodes that agree on their rectangle, their
  \<^verbatim>\<open>used\<close> flag and the rectangles of their children. The properties below look at a node
  no deeper than that.
\<close>

definition same_rect :: "node \<Rightarrow> node \<Rightarrow> bool" where
  "same_rect a b \<longleftrightarrow>
     node_x a = node_x b \<and> node_y a = node_y b \<and>
     node_width a = node_width b \<and> node_height a = node_height b"

definition similar :: "node \<Rightarrow> node \<Rightarrow> bool" where
  "similar a b \<longleftrightarrow>
     same_rect a b \<and> used a = used b \<and>
     rel_option same_rect (right a) (right b) \<and> rel_option same_rect (down a) (down b)"

text \<open>A node is a leaf (not used, no children) or fully split (used, both children present).\<close>

definition shape :: "node \<Rightarrow> bool" where
  "shape n \<longleftrightarrow>
     (if used n then right n \<noteq> None \<and> down n \<noteq> None else right n = None \<and> down n = None)"

definition nonneg_size :: "node \<Rightarrow> bool" where
  "nonneg_size n \<longleftrightarrow> 0 \<le> node_width n \<and> 0 \<le> node_height n"







text \<open>
  What a placed block's node has to do with the block: the same width and height, or
  room for the block.
\<close>

definition fit_exact :: "block \<Rightarrow> bool" where
  "fit_exact b \<longleftrightarrow>
     (case block_fit b of
        None \<Rightarrow> True
      | Some n \<Rightarrow> node_width n = block_width b \<and> node_height n = block_height b)"

definition fit_holds :: "block \<Rightarrow> bool" where
  "fit_holds b \<longleftrightarrow>
     (case block_fit b of
        None \<Rightarrow> True
      | Some n \<Rightarrow> block_width b \<le> node_width n \<and> block_height b \<le> node_height n)"

text \<open>
  The invariant of a \<^verbatim>\<open>GrowingPacker\<close> behind the sizes of its nodes: a positive aspect
  ratio, and every node a leaf or fully split with a width and a height that are not negative.
\<close>

definition sized :: "GrowingPacker \<Rightarrow> bool" where
  "sized this \<longleftrightarrow> 0 < aspectRatio this \<and> all_nodes (\<lambda>n. nonneg_size n \<and> shape n) (root this)"

text \<open>
  Rectangles as \<open>(x, y, width, height)\<close>: one inside another, the rectangle of a node, the
  rectangles of the free leaves of a tree (the regions \<^verbatim>\<open>findNode\<close> can still return), and
  the footprints of the blocks that were placed, in the order of the blocks.
\<close>

type_synonym rect = "rat \<times> rat \<times> rat \<times> rat"

fun lies_in :: "rect \<Rightarrow> rect \<Rightarrow> bool" where
  "lies_in (x1, y1, w1, h1) (x2, y2, w2, h2) \<longleftrightarrow>
     x2 \<le> x1 \<and> x1 + w1 \<le> x2 + w2 \<and> y2 \<le> y1 \<and> y1 + h1 \<le> y2 + h2"

definition rect_of :: "node \<Rightarrow> rect" where
  "rect_of n = (node_x n, node_y n, node_width n, node_height n)"

fun leaves :: "node \<Rightarrow> rect list" where
  "leaves (Node x y w h u r d) =
     (if u then (case r of None \<Rightarrow> [] | Some rn \<Rightarrow> leaves rn) @
                (case d of None \<Rightarrow> [] | Some dn \<Rightarrow> leaves dn)
      else [(x, y, w, h)])"

fun placed :: "block list \<Rightarrow> rect list" where
  "placed [] = []"
| "placed (b # bs) = (case footprint b of None \<Rightarrow> placed bs | Some f \<Rightarrow> f # placed bs)"

text \<open>No two rectangles of a list, at different positions, overlap.\<close>

definition apart :: "rect list \<Rightarrow> bool" where
  "apart rs \<longleftrightarrow> sorted_wrt (\<lambda>a b. \<not> overlap a b) rs"

text \<open>
  The footprints placed so far and the free leaves are pairwise apart and all lie inside
  the rectangle of the root.
\<close>

definition packed :: "node \<Rightarrow> rect list \<Rightarrow> bool" where
  "packed rt ps \<longleftrightarrow>
     apart (ps @ leaves rt) \<and> list_all (\<lambda>a. lies_in a (rect_of rt)) (ps @ leaves rt)"

text \<open>
  The invariant of a \<^verbatim>\<open>GrowingPacker\<close> whose aspect ratio is the width of its root over
  the height: that is the case when the packer is made at least as wide as high, and
  \<^verbatim>\<open>growRight\<close> and \<^verbatim>\<open>growDown\<close> keep it.
\<close>

definition landscape :: "GrowingPacker \<Rightarrow> rect list \<Rightarrow> bool" where
  "landscape this ps \<longleftrightarrow>
     node_x (root this) = 0 \<and> node_y (root this) = 0 \<and> 0 < aspectRatio this \<and>
     node_width (root this) = aspectRatio this * node_height (root this) \<and>
     0 \<le> node_height (root this) \<and>
     all_nodes shape (root this) \<and> packed (root this) ps"

text \<open>
  The children \<open>r\<close> and \<open>d\<close> of \<open>n\<close> are what \<^verbatim>\<open>splitNode(n, w, h)\<close> makes, for a
  \<open>w\<close> by \<open>h\<close> that \<^verbatim>\<open>findNode\<close> accepts for \<open>n\<close>: the right one beside the footprint
  and as tall as it, the down one below it and as wide as \<open>n\<close>.
\<close>

definition split_for :: "rat \<Rightarrow> rat \<Rightarrow> node \<Rightarrow> node \<Rightarrow> node \<Rightarrow> bool" where
  "split_for w h n r d \<longleftrightarrow>
     w \<le> node_width n \<and> h \<le> node_height n \<and>
     rect_of r = (node_x n + w, node_y n, node_width n - w, h) \<and>
     rect_of d = (node_x n, node_y n + h, node_width n, node_height n - h)"

text \<open>The node recorded as the \<^verbatim>\<open>fit\<close> of block \<open>b\<close> is the node \<open>n\<close>: it has its rectangle.\<close>

definition fit_is :: "node \<Rightarrow> block \<Rightarrow> bool" where
  "fit_is n b \<longleftrightarrow> (case block_fit b of None \<Rightarrow> False | Some f \<Rightarrow> rect_of f = rect_of n)"

text \<open>
  A node is a leaf, or it is fully split and one of the blocks is recorded at it, with
  children that are the split for the width and height of that block.
\<close>

definition split_by :: "block list \<Rightarrow> node \<Rightarrow> bool" where
  "split_by bs n \<longleftrightarrow>
     (if used n then
        (case right n of
           None \<Rightarrow> False
         | Some r \<Rightarrow>
             (case down n of
                None \<Rightarrow> False
              | Some d \<Rightarrow>
                  list_ex (\<lambda>b. fit_is n b \<and> split_for (block_width b) (block_height b) n r d) bs))
      else right n = None \<and> down n = None)"





text \<open>
  Whole numbers: a node whose four numbers are integers, sizes that are integers. Sums
  and differences of integers below \<open>2 ^ 53\<close> are exact in doubles.
\<close>

definition whole :: "node \<Rightarrow> bool" where
  "whole n \<longleftrightarrow>
     of_int \<lfloor>node_x n\<rfloor> = node_x n \<and> of_int \<lfloor>node_y n\<rfloor> = node_y n \<and>
     of_int \<lfloor>node_width n\<rfloor> = node_width n \<and> of_int \<lfloor>node_height n\<rfloor> = node_height n"

definition whole_sizes :: "(rat \<times> rat) list \<Rightarrow> bool" where
  "whole_sizes sizes =
     list_all (\<lambda>(width, height). of_int \<lfloor>width\<rfloor> = width \<and> of_int \<lfloor>height\<rfloor> = height) sizes"

text \<open>The invariant of a \<^verbatim>\<open>GrowingPacker\<close> made square with a whole side.\<close>

definition squared :: "GrowingPacker \<Rightarrow> bool" where
  "squared this \<longleftrightarrow> aspectRatio this = 1 \<and> all_nodes (\<lambda>n. whole n \<and> shape n) (root this)"

text \<open>The equations that evaluate a concrete run.\<close>

lemmas run_defs = Packer_init_def region_def Packer_fit_block_def splitAt_def splitNode_def
  GrowingPacker_init_def GrowingPacker_fit_block_def growNode_def growRight_def growDown_def
  grownRight_def grownDown_def
  findAndSplit_def canGrowDown_def canGrowRight_def shouldGrowRight_def shouldGrowDown_def
  blk_def footprint_def Let_def

section \<open>The search and the split\<close>

text \<open>
  A node that \<^verbatim>\<open>findNode\<close> returns is a node of the tree, not used, with room for the
  block; on a tree whose nodes are all leaves or fully split it raises no error.
\<close>

lemma findNode_path:
  "findNode rt width height = Inr (Some p) \<Longrightarrow>
   \<exists>n. nodeAt rt p = Some n \<and> \<not> used n \<and> width \<le> node_width n \<and> height \<le> node_height n"
  by (induction rt width height arbitrary: p rule: findNode.induct)
     (auto split: if_splits option.splits sum.splits)

lemma findNode_total:
  "all_nodes shape rt \<Longrightarrow> \<exists>r. findNode rt width height = Inr r"
proof (induction rt width height rule: findNode.induct)
  case (1 x y w h u r d width height)
  show ?case
  proof (cases u)
    case False
    then show ?thesis by simp
  next
    case True
    from "1.prems" have "shape (Node x y w h u r d)" by simp
    with True obtain rn dn where r: "r = Some rn" and d: "d = Some dn"
      unfolding shape_def by auto
    from "1.prems" r d have srn: "all_nodes shape rn" and sdn: "all_nodes shape dn"
      by simp_all
    from "1.IH"(1)[OF True r srn] obtain res where res: "findNode rn width height = Inr res" ..
    show ?thesis
    proof (cases res)
      case (Some q)
      with True r res show ?thesis by simp
    next
      case None
      from "1.IH"(2)[OF True r _ _ d sdn] res None
      obtain res2 where "findNode dn width height = Inr res2" by auto
      with True r d res None show ?thesis by (cases res2) simp_all
    qed
  qed
qed

lemma same_rect_refl [simp]: "same_rect a a"
  by (simp add: same_rect_def)

lemma same_rect_modifyAt:
  "(\<And>n. same_rect (f n) n) \<Longrightarrow> same_rect (modifyAt p f rt) rt"
  by (induction p f rt rule: modifyAt.induct) (auto simp: same_rect_def)

lemma same_rect_splitAt: "same_rect (splitAt rt p width height) rt"
  unfolding splitAt_def by (rule same_rect_modifyAt) (simp add: same_rect_def splitNode_def)

lemma rect_of_splitAt [simp]: "rect_of (splitAt rt p width height) = rect_of rt"
  using same_rect_splitAt[of rt p width height] by (simp add: rect_of_def same_rect_def)

lemma nodeAt_modifyAt:
  "nodeAt rt p = Some n \<Longrightarrow> nodeAt (modifyAt p f rt) p = Some (f n)"
  by (induction p f rt rule: modifyAt.induct) (auto split: option.splits)

lemma all_nodes_region [simp]: "all_nodes P (region x y w h) = P (region x y w h)"
  by (simp add: region_def)

lemma all_nodes_splitAt:
  assumes loc: "\<And>a b. similar a b \<Longrightarrow> P a \<Longrightarrow> P b"
    and sp: "\<And>n. P n \<Longrightarrow> \<not> used n \<Longrightarrow> width \<le> node_width n \<Longrightarrow> height \<le> node_height n \<Longrightarrow>
       P (splitNode n width height) \<and>
       P (region (node_x n + width) (node_y n) (node_width n - width) height) \<and>
       P (region (node_x n) (node_y n + height) (node_width n) (node_height n - height))"
  shows "findNode rt width height = Inr (Some p) \<Longrightarrow> all_nodes P rt \<Longrightarrow>
         all_nodes P (splitAt rt p width height)"
proof (induction rt arbitrary: p)
  case (Node x y w h u r d)
  from Node.prems(2) have P: "P (Node x y w h u r d)" by simp
  show ?case
  proof (cases u)
    case False
    with Node.prems have p: "p = []" and fits: "width \<le> w" "height \<le> h"
      by (auto split: if_splits)
    from sp[OF P] False fits show ?thesis
      by (auto simp: p splitAt_def splitNode_def)
  next
    case True
    from Node.prems(1) True obtain rn where r: "r = Some rn"
      by (auto split: option.splits)
    show ?thesis
    proof (cases "findNode rn width height")
      case (Inl e)
      with Node.prems(1) True r show ?thesis by simp
    next
      case (Inr res)
      show ?thesis
      proof (cases res)
        case (Some q)
        with Node.prems(1) True r Inr have p: "p = GoRight # q" by simp
        have ih: "all_nodes P (splitAt rn q width height)"
          using Node.IH(1)[of rn q] Inr Some Node.prems(2) r by simp
        have "similar (Node x y w h u r d) (Node x y w h u (Some (splitAt rn q width height)) d)"
          using same_rect_splitAt[of rn q width height]
          by (simp add: similar_def r same_rect_def option.rel_refl)
        from loc[OF this P] ih Node.prems(2) show ?thesis
          by (simp add: p r splitAt_def)
      next
        case None
        with Node.prems(1) True r Inr obtain dn where d: "d = Some dn"
          by (auto split: option.splits)
        from Node.prems(1) True r Inr None d obtain q
          where q: "findNode dn width height = Inr (Some q)" and p: "p = GoDown # q"
          by (auto split: option.splits sum.splits)
        have ih: "all_nodes P (splitAt dn q width height)"
          using Node.IH(2)[of dn q] q Node.prems(2) d by simp
        have "similar (Node x y w h u r d) (Node x y w h u r (Some (splitAt dn q width height)))"
          using same_rect_splitAt[of dn q width height]
          by (simp add: similar_def d same_rect_def option.rel_refl)
        from loc[OF this P] ih Node.prems(2) show ?thesis
          by (simp add: p d splitAt_def)
      qed
    qed
  qed
qed

lemma all_nodes_mono: "(\<And>n. P n \<Longrightarrow> Q n) \<Longrightarrow> all_nodes P t \<Longrightarrow> all_nodes Q t"
  by (induction t) (auto split: option.splits)

lemma all_nodes_conj: "all_nodes (\<lambda>n. P n \<and> Q n) t \<longleftrightarrow> all_nodes P t \<and> all_nodes Q t"
  by (induction t) (auto split: option.splits)

lemma all_nodes_root: "all_nodes P t \<Longrightarrow> P t"
  by (cases t) simp

lemma findNode_splitAt:
  assumes "findNode rt width height = Inr (Some p)"
  shows "\<exists>n. nodeAt rt p = Some n \<and> \<not> used n \<and> width \<le> node_width n \<and> height \<le> node_height n \<and>
             nodeAt (splitAt rt p width height) p = Some (splitNode n width height)"
  using findNode_path[OF assms] by (auto simp: splitAt_def nodeAt_modifyAt)

subsection \<open>A run on a prefix\<close>

text \<open>
  The packer after the first blocks of a run is the packer after a run on those blocks:
  what holds after every run holds at every point between two blocks of a run.
\<close>

lemma Packer_fit_append:
  "Packer_fit rt (xs @ ys) =
     (case Packer_fit rt xs of
        Inl e \<Rightarrow> Inl e
      | Inr (rt1, bs1) \<Rightarrow>
          (case Packer_fit rt1 ys of
             Inl e \<Rightarrow> Inl e
           | Inr (rt2, bs2) \<Rightarrow> Inr (rt2, bs1 @ bs2)))"
  by (induction xs arbitrary: rt) (auto split: sum.splits)

lemma GrowingPacker_fit_append:
  "GrowingPacker_fit this (xs @ ys) =
     (case GrowingPacker_fit this xs of
        Inl e \<Rightarrow> Inl e
      | Inr (this1, bs1) \<Rightarrow>
          (case GrowingPacker_fit this1 ys of
             Inl e \<Rightarrow> Inl e
           | Inr (this2, bs2) \<Rightarrow> Inr (this2, bs1 @ bs2)))"
  by (induction xs arbitrary: this) (auto split: sum.splits)

subsection \<open>An invariant of the tree through \<^verbatim>\<open>Packer.fit\<close>\<close>

text \<open>
  A property of every node that looks no deeper than the rectangles of the children, and
  that a split establishes for the node and its two new children, holds for every node
  after \<^verbatim>\<open>fit\<close>; and \<^verbatim>\<open>fit\<close> returns.
\<close>

lemma Packer_fit_block_inv:
  assumes loc: "\<And>a b. similar a b \<Longrightarrow> P a \<Longrightarrow> P b"
    and shp: "\<And>n. P n \<Longrightarrow> shape n"
    and sp: "\<And>n. P n \<Longrightarrow> \<not> used n \<Longrightarrow> block_width b \<le> node_width n \<Longrightarrow>
       block_height b \<le> node_height n \<Longrightarrow>
       P (splitNode n (block_width b) (block_height b)) \<and>
       P (region (node_x n + block_width b) (node_y n) (node_width n - block_width b) (block_height b)) \<and>
       P (region (node_x n) (node_y n + block_height b) (node_width n) (node_height n - block_height b))"
    and inv: "all_nodes P rt"
  shows "\<exists>rt' b'. Packer_fit_block rt b = Inr (rt', b') \<and> all_nodes P rt'"
proof -
  from inv shp have "all_nodes shape rt" by (rule all_nodes_mono[rotated])
  from findNode_total[OF this] obtain res
    where res: "findNode rt (block_width b) (block_height b) = Inr res" by blast
  show ?thesis
  proof (cases res)
    case None
    with res inv show ?thesis by (simp add: Packer_fit_block_def)
  next
    case (Some p)
    with res have "all_nodes P (splitAt rt p (block_width b) (block_height b))"
      using all_nodes_splitAt[of P "block_width b" "block_height b" rt p, OF loc sp _ inv]
      by simp
    with res Some show ?thesis by (simp add: Packer_fit_block_def Let_def)
  qed
qed

lemma Packer_fit_inv:
  assumes loc: "\<And>a b. similar a b \<Longrightarrow> P a \<Longrightarrow> P b"
    and shp: "\<And>n. P n \<Longrightarrow> shape n"
    and sp: "\<And>n width height. B width height \<Longrightarrow> P n \<Longrightarrow> \<not> used n \<Longrightarrow> width \<le> node_width n \<Longrightarrow>
       height \<le> node_height n \<Longrightarrow>
       P (splitNode n width height) \<and>
       P (region (node_x n + width) (node_y n) (node_width n - width) height) \<and>
       P (region (node_x n) (node_y n + height) (node_width n) (node_height n - height))"
  shows "all_nodes P rt \<Longrightarrow> list_all (\<lambda>b. B (block_width b) (block_height b)) blocks \<Longrightarrow>
         \<exists>rt' bs. Packer_fit rt blocks = Inr (rt', bs) \<and> all_nodes P rt'"
proof (induction blocks arbitrary: rt)
  case Nil
  then show ?case by simp
next
  case (Cons b blocks)
  from Cons.prems(2) have b: "B (block_width b) (block_height b)" by simp
  have "\<exists>rt' b'. Packer_fit_block rt b = Inr (rt', b') \<and> all_nodes P rt'"
    by (rule Packer_fit_block_inv[of P b rt, OF loc shp sp[OF b] Cons.prems(1)])
  then obtain rt1 b1 where step: "Packer_fit_block rt b = Inr (rt1, b1)" and inv1: "all_nodes P rt1"
    by blast
  from Cons.IH[OF inv1] Cons.prems(2)
  obtain rt2 bs where "Packer_fit rt1 blocks = Inr (rt2, bs)" "all_nodes P rt2" by auto
  with step show ?case by simp
qed

subsection \<open>An invariant of the packer through \<^verbatim>\<open>GrowingPacker.fit\<close>\<close>

text \<open>
  An invariant that a split and the two ways of growing keep holds after \<^verbatim>\<open>fit\<close>; and
  \<^verbatim>\<open>fit\<close> returns.
\<close>

lemma findAndSplit_inv:
  assumes shp: "\<And>this. Inv this \<Longrightarrow> all_nodes shape (root this)"
    and spl: "\<And>this p. Inv this \<Longrightarrow> findNode (root this) width height = Inr (Some p) \<Longrightarrow>
       Inv (this\<lparr>root := splitAt (root this) p width height\<rparr>)"
    and inv: "Inv this"
  shows "\<exists>this' nd. findAndSplit this width height = Inr (this', nd) \<and> Inv this'"
proof -
  from findNode_total[OF shp[OF inv]] obtain res
    where res: "findNode (root this) width height = Inr res" by blast
  show ?thesis
  proof (cases res)
    case None
    with res inv show ?thesis by (simp add: findAndSplit_def)
  next
    case (Some p)
    with res spl[OF inv] show ?thesis by (simp add: findAndSplit_def Let_def)
  qed
qed

lemma growNode_inv:
  assumes shp: "\<And>this. Inv this \<Longrightarrow> all_nodes shape (root this)"
    and spl: "\<And>this p. Inv this \<Longrightarrow> findNode (root this) width height = Inr (Some p) \<Longrightarrow>
       Inv (this\<lparr>root := splitAt (root this) p width height\<rparr>)"
    and gr: "\<And>this. Inv this \<Longrightarrow> Inv (this\<lparr>root := grownRight this width height\<rparr>)"
    and gd: "\<And>this. Inv this \<Longrightarrow> Inv (this\<lparr>root := grownDown this width height\<rparr>)"
    and inv: "Inv this"
  shows "\<exists>this' nd. growNode this width height = Inr (this', nd) \<and> Inv this'"
proof -
  have r: "\<exists>this' nd. growRight this width height = Inr (this', nd) \<and> Inv this'"
    unfolding growRight_def by (rule findAndSplit_inv[of Inv, OF shp spl gr[OF inv]])
  have d: "\<exists>this' nd. growDown this width height = Inr (this', nd) \<and> Inv this'"
    unfolding growDown_def by (rule findAndSplit_inv[of Inv, OF shp spl gd[OF inv]])
  from r d inv show ?thesis by (simp add: growNode_def)
qed

lemma GrowingPacker_fit_block_inv:
  assumes shp: "\<And>this. Inv this \<Longrightarrow> all_nodes shape (root this)"
    and spl: "\<And>this p. Inv this \<Longrightarrow>
       findNode (root this) (block_width b) (block_height b) = Inr (Some p) \<Longrightarrow>
       Inv (this\<lparr>root := splitAt (root this) p (block_width b) (block_height b)\<rparr>)"
    and gr: "\<And>this. Inv this \<Longrightarrow> Inv (this\<lparr>root := grownRight this (block_width b) (block_height b)\<rparr>)"
    and gd: "\<And>this. Inv this \<Longrightarrow> Inv (this\<lparr>root := grownDown this (block_width b) (block_height b)\<rparr>)"
    and inv: "Inv this"
  shows "\<exists>this' b'. GrowingPacker_fit_block this b = Inr (this', b') \<and> Inv this'"
proof -
  from findNode_total[OF shp[OF inv]] obtain res
    where res: "findNode (root this) (block_width b) (block_height b) = Inr res" by blast
  show ?thesis
  proof (cases res)
    case None
    have "\<exists>this' nd. growNode this (block_width b) (block_height b) = Inr (this', nd) \<and> Inv this'"
      by (rule growNode_inv[of Inv "block_width b" "block_height b" this, OF shp spl gr gd inv])
    then obtain this' nd where "growNode this (block_width b) (block_height b) = Inr (this', nd)" "Inv this'"
      by blast
    with res None show ?thesis by (simp add: GrowingPacker_fit_block_def)
  next
    case (Some p)
    with res spl[OF inv] show ?thesis by (simp add: GrowingPacker_fit_block_def Let_def)
  qed
qed

lemma GrowingPacker_fit_inv:
  assumes shp: "\<And>this. Inv this \<Longrightarrow> all_nodes shape (root this)"
    and spl: "\<And>this p width height. B width height \<Longrightarrow> Inv this \<Longrightarrow>
       findNode (root this) width height = Inr (Some p) \<Longrightarrow>
       Inv (this\<lparr>root := splitAt (root this) p width height\<rparr>)"
    and gr: "\<And>this width height. B width height \<Longrightarrow> Inv this \<Longrightarrow>
       Inv (this\<lparr>root := grownRight this width height\<rparr>)"
    and gd: "\<And>this width height. B width height \<Longrightarrow> Inv this \<Longrightarrow>
       Inv (this\<lparr>root := grownDown this width height\<rparr>)"
  shows "Inv this \<Longrightarrow> list_all (\<lambda>b. B (block_width b) (block_height b)) blocks \<Longrightarrow>
         \<exists>this' bs. GrowingPacker_fit this blocks = Inr (this', bs) \<and> Inv this'"
proof (induction blocks arbitrary: this)
  case Nil
  then show ?case by simp
next
  case (Cons b blocks)
  from Cons.prems(2) have b: "B (block_width b) (block_height b)" by simp
  have "\<exists>this' b'. GrowingPacker_fit_block this b = Inr (this', b') \<and> Inv this'"
    by (rule GrowingPacker_fit_block_inv[of Inv b this, OF shp spl[OF b] gr[OF b] gd[OF b] Cons.prems(1)])
  then obtain this1 b1 where step: "GrowingPacker_fit_block this b = Inr (this1, b1)" and inv1: "Inv this1"
    by blast
  from Cons.IH[OF inv1] Cons.prems(2)
  obtain this2 bs where "GrowingPacker_fit this1 blocks = Inr (this2, bs)" "Inv this2" by auto
  with step show ?case by simp
qed

section \<open>Invariants of the runs\<close>

lemma similar_shape: "similar a b \<Longrightarrow> shape a \<Longrightarrow> shape b"
  by (cases "right a"; cases "right b"; cases "down a"; cases "down b")
     (auto simp: similar_def shape_def)

lemma similar_nonneg: "similar a b \<Longrightarrow> nonneg_size a \<Longrightarrow> nonneg_size b"
  by (simp add: similar_def same_rect_def nonneg_size_def)

lemma shape_region [simp]: "shape (region x y w h)"
  by (simp add: shape_def region_def)

lemma shape_splitNode [simp]: "shape (splitNode n w h)"
  by (simp add: shape_def splitNode_def)

lemma all_shape_init: "all_nodes shape (Packer_init W H)"
  by (simp add: Packer_init_def)

subsection \<open>Sizes never negative\<close>

lemma nonneg_split:
  assumes "0 < width \<and> 0 < height" "nonneg_size n \<and> shape n" "\<not> used n"
    "width \<le> node_width n" "height \<le> node_height n"
  shows "(nonneg_size (splitNode n width height) \<and> shape (splitNode n width height)) \<and>
       (nonneg_size (region (node_x n + width) (node_y n) (node_width n - width) height) \<and>
        shape (region (node_x n + width) (node_y n) (node_width n - width) height)) \<and>
       (nonneg_size (region (node_x n) (node_y n + height) (node_width n) (node_height n - height)) \<and>
        shape (region (node_x n) (node_y n + height) (node_width n) (node_height n - height)))"
  using assms by (simp add: nonneg_size_def splitNode_def region_def shape_def)

lemma sized_init: "0 < W \<Longrightarrow> 0 < H \<Longrightarrow> sized (GrowingPacker_init W H)"
  by (simp add: sized_def GrowingPacker_init_def nonneg_size_def region_def shape_def)

lemma sized_shape: "sized this \<Longrightarrow> all_nodes shape (root this)"
  by (simp add: sized_def all_nodes_conj)

lemma sized_split:
  assumes "0 < width \<and> 0 < height" "sized this" "findNode (root this) width height = Inr (Some p)"
  shows "sized (this\<lparr>root := splitAt (root this) p width height\<rparr>)"
proof -
  have "all_nodes (\<lambda>n. nonneg_size n \<and> shape n) (splitAt (root this) p width height)"
  proof (rule all_nodes_splitAt[OF _ _ assms(3)])
    fix a b assume "similar a b" "nonneg_size a \<and> shape a"
    then show "nonneg_size b \<and> shape b" by (auto intro: similar_shape similar_nonneg)
  next
    fix n assume "nonneg_size n \<and> shape n" "\<not> used n" "width \<le> node_width n" "height \<le> node_height n"
    with assms(1) show "(nonneg_size (splitNode n width height) \<and> shape (splitNode n width height)) \<and>
       (nonneg_size (region (node_x n + width) (node_y n) (node_width n - width) height) \<and>
        shape (region (node_x n + width) (node_y n) (node_width n - width) height)) \<and>
       (nonneg_size (region (node_x n) (node_y n + height) (node_width n) (node_height n - height)) \<and>
        shape (region (node_x n) (node_y n + height) (node_width n) (node_height n - height)))"
      by (rule nonneg_split)
  next
    from assms(2) show "all_nodes (\<lambda>n. nonneg_size n \<and> shape n) (root this)"
      by (simp add: sized_def)
  qed
  with assms(2) show ?thesis by (simp add: sized_def)
qed

lemma sized_grownRight:
  assumes "0 < width \<and> 0 < height" "sized this"
  shows "sized (this\<lparr>root := grownRight this width height\<rparr>)"
proof -
  from assms(2) have a: "0 < aspectRatio this"
    and t: "all_nodes (\<lambda>n. nonneg_size n \<and> shape n) (root this)" by (simp_all add: sized_def)
  from t have "nonneg_size (root this)" by (auto dest: all_nodes_root)
  then have W: "0 \<le> node_width (root this)" by (simp add: nonneg_size_def)
  with assms(1) a have "0 \<le> (node_width (root this) + width) * (1 / aspectRatio this)"
    by simp
  with W assms(1) a t show ?thesis
    by (simp add: sized_def grownRight_def Let_def nonneg_size_def shape_def region_def)
qed

lemma sized_grownDown:
  assumes "0 < width \<and> 0 < height" "sized this"
  shows "sized (this\<lparr>root := grownDown this width height\<rparr>)"
proof -
  from assms(2) have a: "0 < aspectRatio this"
    and t: "all_nodes (\<lambda>n. nonneg_size n \<and> shape n) (root this)" by (simp_all add: sized_def)
  from t have "nonneg_size (root this)" by (auto dest: all_nodes_root)
  then have H: "0 \<le> node_height (root this)" by (simp add: nonneg_size_def)
  with assms(1) a have "0 \<le> (node_height (root this) + height) * aspectRatio this"
    by simp
  with H assms(1) a t show ?thesis
    by (simp add: sized_def grownDown_def Let_def nonneg_size_def shape_def region_def)
qed

lemma positive_fresh:
  "positive sizes \<Longrightarrow> list_all (\<lambda>b. 0 < block_width b \<and> 0 < block_height b) (fresh sizes)"
  by (induction sizes) (auto simp: positive_def fresh_def blk_def)

text \<open>
  C10. When the packer is made with positive dimensions and every block has positive
  width and height, \<^verbatim>\<open>fit\<close> returns for either packer and no node of the tree has a
  negative width or height (a run on a prefix of the blocks is a run, so this holds after
  every block). Whatever the tree, a node that \<^verbatim>\<open>findNode\<close> returns, which is the only
  kind of node \<^verbatim>\<open>splitNode\<close> is applied to, is a free node of the tree at least as wide
  and as high as the block, so the width of its right child and the height of its down
  child are not negative.
\<close>

theorem sizes_never_negative:
  assumes "0 < W" "0 < H" "positive sizes"
  shows "(\<exists>rt' bs. Packer_fit (Packer_init W H) (fresh sizes) = Inr (rt', bs) \<and>
            all_nodes nonneg_size rt') \<and>
         (\<exists>this' bs. GrowingPacker_fit (GrowingPacker_init W H) (fresh sizes) = Inr (this', bs) \<and>
            all_nodes nonneg_size (root this')) \<and>
         (\<forall>rt width height p. findNode rt width height = Inr (Some p) \<longrightarrow>
            (\<exists>n. nodeAt rt p = Some n \<and> \<not> used n \<and>
                 0 \<le> node_width n - width \<and> 0 \<le> node_height n - height))"
proof (intro conjI allI impI)
  have "\<exists>rt' bs. Packer_fit (Packer_init W H) (fresh sizes) = Inr (rt', bs) \<and>
            all_nodes (\<lambda>n. nonneg_size n \<and> shape n) rt'"
  proof (rule Packer_fit_inv[where B = "\<lambda>w h. 0 < w \<and> 0 < h"])
    fix a b assume "similar a b" "nonneg_size a \<and> shape a"
    then show "nonneg_size b \<and> shape b" by (auto intro: similar_shape similar_nonneg)
  next
    fix n assume "nonneg_size n \<and> shape n" then show "shape n" by simp
  next
    fix n width height
    assume "0 < width \<and> 0 < height" "nonneg_size n \<and> shape n" "\<not> used n"
      "width \<le> node_width n" "height \<le> node_height n"
    then show "(nonneg_size (splitNode n width height) \<and> shape (splitNode n width height)) \<and>
       (nonneg_size (region (node_x n + width) (node_y n) (node_width n - width) height) \<and>
        shape (region (node_x n + width) (node_y n) (node_width n - width) height)) \<and>
       (nonneg_size (region (node_x n) (node_y n + height) (node_width n) (node_height n - height)) \<and>
        shape (region (node_x n) (node_y n + height) (node_width n) (node_height n - height)))"
      by (rule nonneg_split)
  next
    from assms(1,2) show "all_nodes (\<lambda>n. nonneg_size n \<and> shape n) (Packer_init W H)"
      by (simp add: Packer_init_def nonneg_size_def region_def shape_def)
  next
    from assms(3) show "list_all (\<lambda>b. 0 < block_width b \<and> 0 < block_height b) (fresh sizes)"
      by (rule positive_fresh)
  qed
  then show "\<exists>rt' bs. Packer_fit (Packer_init W H) (fresh sizes) = Inr (rt', bs) \<and>
            all_nodes nonneg_size rt'"
    by (auto simp: all_nodes_conj)
next
  have "\<exists>this' bs. GrowingPacker_fit (GrowingPacker_init W H) (fresh sizes) = Inr (this', bs) \<and>
          sized this'"
    by (rule GrowingPacker_fit_inv[where B = "\<lambda>w h. 0 < w \<and> 0 < h" and Inv = sized,
          OF sized_shape sized_split sized_grownRight sized_grownDown
             sized_init[OF assms(1,2)] positive_fresh[OF assms(3)]])
  then show "\<exists>this' bs. GrowingPacker_fit (GrowingPacker_init W H) (fresh sizes) = Inr (this', bs) \<and>
            all_nodes nonneg_size (root this')"
    by (auto simp: sized_def all_nodes_conj)
next
  fix rt width height p
  assume "findNode rt width height = Inr (Some p)"
  from findNode_path[OF this]
  show "\<exists>n. nodeAt rt p = Some n \<and> \<not> used n \<and>
                 0 \<le> node_width n - width \<and> 0 \<le> node_height n - height"
    by auto
qed

theorem sizes_never_negative_witness:
  "(0::rat) < 100 \<and> (0::rat) < 100 \<and> positive [(50, 50), (50, 50), (60, 60)] \<and>
   (\<exists>rt' bs. Packer_fit (Packer_init 100 100) (fresh [(50, 50), (50, 50), (60, 60)]) = Inr (rt', bs) \<and>
            all_nodes nonneg_size rt') \<and>
   (\<exists>this' bs. GrowingPacker_fit (GrowingPacker_init 100 100) (fresh [(50, 50), (50, 50), (60, 60)]) = Inr (this', bs) \<and>
            all_nodes nonneg_size (root this')) \<and>
   findNode (Packer_init 100 100) 50 50 = Inr (Some []) \<and>
   (\<exists>n. nodeAt (Packer_init 100 100) [] = Some n \<and> \<not> used n \<and>
                 0 \<le> node_width n - 50 \<and> 0 \<le> node_height n - 50)"
proof -
  have h: "(0::rat) < 100" "positive [(50, 50), (50, 50), (60, 60)]"
    by (simp_all add: positive_def)
  have f: "findNode (Packer_init 100 100) 50 50 = Inr (Some [])"
    by (simp add: Packer_init_def region_def)
  from sizes_never_negative[OF h(1) h(1) h(2)] h f show ?thesis
    by blast
qed

subsection \<open>The node of a placed block\<close>

lemma fit_holds_split:
  assumes "findNode rt (block_width b) (block_height b) = Inr (Some p)"
  shows "fit_holds (b\<lparr>block_fit := nodeAt (splitAt rt p (block_width b) (block_height b)) p\<rparr>)"
  using findNode_splitAt[OF assms] by (auto simp: fit_holds_def splitNode_def)

lemma Packer_fit_block_fit:
  "Packer_fit_block rt b = Inr (rt', b') \<Longrightarrow> fit_holds b \<Longrightarrow>
   fit_holds b' \<and> block_width b' = block_width b \<and> block_height b' = block_height b"
  by (auto simp: Packer_fit_block_def Let_def fit_holds_split split: sum.splits option.splits)

lemma Packer_fit_fits:
  "Packer_fit rt blocks = Inr (rt', bs) \<Longrightarrow> list_all fit_holds blocks \<Longrightarrow>
   list_all fit_holds bs \<and>
   map (\<lambda>b. (block_width b, block_height b)) bs = map (\<lambda>b. (block_width b, block_height b)) blocks"
proof (induction blocks arbitrary: rt rt' bs)
  case Nil
  then show ?case by simp
next
  case (Cons b blocks)
  from Cons.prems(1) obtain rt1 b1 rt2 bs2 where
    s1: "Packer_fit_block rt b = Inr (rt1, b1)" and s2: "Packer_fit rt1 blocks = Inr (rt2, bs2)"
    and bs: "bs = b1 # bs2"
    by (auto split: sum.splits)
  from Packer_fit_block_fit[OF s1] Cons.prems(2) Cons.IH[OF s2] bs show ?case by simp
qed

lemma findAndSplit_fit:
  "findAndSplit this width height = Inr (this', nd) \<Longrightarrow>
   (case nd of None \<Rightarrow> True | Some n \<Rightarrow> width \<le> node_width n \<and> height \<le> node_height n)"
  by (auto simp: findAndSplit_def Let_def splitNode_def
      split: sum.splits option.splits dest!: findNode_splitAt)

lemma growNode_fit:
  "growNode this width height = Inr (this', nd) \<Longrightarrow>
   (case nd of None \<Rightarrow> True | Some n \<Rightarrow> width \<le> node_width n \<and> height \<le> node_height n)"
  by (auto simp: growNode_def growRight_def growDown_def split: if_splits dest: findAndSplit_fit)

lemma GrowingPacker_fit_block_fit:
  "GrowingPacker_fit_block this b = Inr (this', b') \<Longrightarrow>
   fit_holds b' \<and> block_width b' = block_width b \<and> block_height b' = block_height b"
  using fit_holds_split[of "root this" b]
  by (auto simp: GrowingPacker_fit_block_def Let_def fit_holds_def
      split: sum.splits option.splits dest!: growNode_fit)

lemma GrowingPacker_fit_fits:
  "GrowingPacker_fit this blocks = Inr (this', bs) \<Longrightarrow>
   list_all fit_holds bs \<and>
   map (\<lambda>b. (block_width b, block_height b)) bs = map (\<lambda>b. (block_width b, block_height b)) blocks"
proof (induction blocks arbitrary: this this' bs)
  case Nil
  then show ?case by simp
next
  case (Cons b blocks)
  from Cons.prems(1) obtain this1 b1 this2 bs2 where
    s1: "GrowingPacker_fit_block this b = Inr (this1, b1)"
    and s2: "GrowingPacker_fit this1 blocks = Inr (this2, bs2)"
    and bs: "bs = b1 # bs2"
    by (auto split: sum.splits)
  from GrowingPacker_fit_block_fit[OF s1] Cons.IH[OF s2] bs show ?case by simp
qed

lemma fresh_sizes: "map (\<lambda>b. (block_width b, block_height b)) (fresh sizes) = sizes"
  by (induction sizes) (auto simp: fresh_def blk_def)

lemma fresh_fit_holds: "list_all fit_holds (fresh sizes)"
  by (induction sizes) (auto simp: fresh_def blk_def fit_holds_def)

lemma list_all_True: "list_all (\<lambda>b. True) xs"
  by (induction xs) auto

lemma Packer_fit_returns:
  "\<exists>rt' bs. Packer_fit (Packer_init W H) blocks = Inr (rt', bs) \<and> all_nodes shape rt'"
proof (rule Packer_fit_inv[where B = "\<lambda>w h. True"])
  show "\<And>a b. similar a b \<Longrightarrow> shape a \<Longrightarrow> shape b" by (rule similar_shape)
  show "all_nodes shape (Packer_init W H)" by (rule all_shape_init)
  show "list_all (\<lambda>b. True) blocks" by (rule list_all_True)
qed simp_all

lemma GrowingPacker_fit_returns:
  "\<exists>this' bs. GrowingPacker_fit (GrowingPacker_init W H) blocks = Inr (this', bs) \<and>
     all_nodes shape (root this')"
proof (rule GrowingPacker_fit_inv[where B = "\<lambda>w h. True" and Inv = "\<lambda>this. all_nodes shape (root this)"])
  show "all_nodes shape (root (GrowingPacker_init W H))"
    by (simp add: GrowingPacker_init_def)
  show "list_all (\<lambda>b. True) blocks" by (rule list_all_True)
next
  fix this :: GrowingPacker and p width height
  assume "all_nodes shape (root this)" "findNode (root this) width height = Inr (Some p)"
  then have "all_nodes shape (splitAt (root this) p width height)"
    by (intro all_nodes_splitAt[where P = shape]) (auto intro: similar_shape)
  then show "all_nodes shape (root (this\<lparr>root := splitAt (root this) p width height\<rparr>))" by simp
next
  fix this :: GrowingPacker and width height
  assume "all_nodes shape (root this)"
  then show "all_nodes shape (root (this\<lparr>root := grownRight this width height\<rparr>))"
    "all_nodes shape (root (this\<lparr>root := grownDown this width height\<rparr>))"
    by (simp_all add: grownRight_def grownDown_def Let_def shape_def[of "Node _ _ _ _ _ _ _"])
qed simp

text \<open>
  C6, as amended. For either packer, made with positive dimensions and run on any list of
  sizes, \<^verbatim>\<open>fit\<close> returns, the blocks keep their sizes and their order, and the node
  recorded for a placed block is at least as wide and as high as the block: it is the
  free node that was found, with the width and height it had before the split.
\<close>

theorem fit_node_has_room:
  assumes "0 < W" "0 < H"
  shows "(\<exists>rt' bs. Packer_fit (Packer_init W H) (fresh sizes) = Inr (rt', bs) \<and>
      list_all fit_holds bs \<and> map (\<lambda>b. (block_width b, block_height b)) bs = sizes) \<and>
   (\<exists>this' bs. GrowingPacker_fit (GrowingPacker_init W H) (fresh sizes) = Inr (this', bs) \<and>
      list_all fit_holds bs \<and> map (\<lambda>b. (block_width b, block_height b)) bs = sizes)"
proof
  from Packer_fit_returns[of W H "fresh sizes"] obtain rt' bs
    where r: "Packer_fit (Packer_init W H) (fresh sizes) = Inr (rt', bs)" by blast
  from Packer_fit_fits[OF r fresh_fit_holds] r
  show "\<exists>rt' bs. Packer_fit (Packer_init W H) (fresh sizes) = Inr (rt', bs) \<and>
      list_all fit_holds bs \<and> map (\<lambda>b. (block_width b, block_height b)) bs = sizes"
    by (simp add: fresh_sizes)
next
  from GrowingPacker_fit_returns[of W H "fresh sizes"] obtain this' bs
    where r: "GrowingPacker_fit (GrowingPacker_init W H) (fresh sizes) = Inr (this', bs)" by blast
  from GrowingPacker_fit_fits[OF r] r
  show "\<exists>this' bs. GrowingPacker_fit (GrowingPacker_init W H) (fresh sizes) = Inr (this', bs) \<and>
      list_all fit_holds bs \<and> map (\<lambda>b. (block_width b, block_height b)) bs = sizes"
    by (simp add: fresh_sizes)
qed

theorem fit_node_has_room_witness:
  "(0::rat) < 100 \<and>
   (\<exists>rt' bs. Packer_fit (Packer_init 100 100) (fresh [(50, 50), (60, 60)]) = Inr (rt', bs) \<and>
      list_all fit_holds bs \<and> map (\<lambda>b. (block_width b, block_height b)) bs = [(50, 50), (60, 60)]) \<and>
   (\<exists>this' bs. GrowingPacker_fit (GrowingPacker_init 100 100) (fresh [(50, 50), (60, 60)]) = Inr (this', bs) \<and>
      list_all fit_holds bs \<and> map (\<lambda>b. (block_width b, block_height b)) bs = [(50, 50), (60, 60)])"
proof -
  have h: "(0::rat) < 100" by simp
  from fit_node_has_room[OF h h, of "[(50, 50), (60, 60)]"] h show ?thesis by blast
qed

text \<open>
  C6, as claimed, fails: the claim is that the recorded node has the width and the
  height of the block. In \<^verbatim>\<open>FixedSizePacker(100, 100)\<close> a block of 50 by 50 is recorded
  with the root, which stays 100 by 100.
\<close>

theorem fit_node_keeps_region_size:
  "map_sum id (\<lambda>(rt, blocks). blocks) (Packer_fit (Packer_init 100 100) (fresh [(50, 50)])) =
     Inr [\<lparr>block_width = 50, block_height = 50,
           block_fit = Some (Node 0 0 100 100 True (Some (region 50 0 50 50)) (Some (region 0 50 100 50)))\<rparr>] \<and>
   \<not> fit_exact \<lparr>block_width = 50, block_height = 50,
           block_fit = Some (Node 0 0 100 100 True (Some (region 50 0 50 50)) (Some (region 0 50 100 50)))\<rparr>"
  by (simp add: run_defs fresh_def fit_exact_def)


subsection \<open>Leaves, split nodes and grown roots\<close>





lemma split_by_region [simp]: "split_by ps (region x y w h)"
  by (simp add: split_by_def region_def)































subsection \<open>Where the arithmetic of doubles is exact\<close>

text \<open>
  With whole dimensions and whole sizes every number in the tree of the fixed packer is a
  whole number between 0 and the side of the root; in a growing packer made square the
  aspect ratio is 1 and every number in the tree is whole. Below \<open>2 ^ 53\<close> the sums,
  differences and products the code computes on such numbers are not rounded.
\<close>

lemma whole_iff: "whole n \<longleftrightarrow>
  node_x n \<in> \<int> \<and> node_y n \<in> \<int> \<and> node_width n \<in> \<int> \<and> node_height n \<in> \<int>"
  by (auto simp: whole_def Ints_def)

lemma similar_whole: "similar a b \<Longrightarrow> whole a \<Longrightarrow> whole b"
  by (simp add: similar_def same_rect_def whole_def)

lemma whole_fresh:
  "whole_sizes sizes \<Longrightarrow> positive sizes \<Longrightarrow>
   list_all (\<lambda>b. (block_width b \<in> \<int> \<and> block_height b \<in> \<int>) \<and> 0 < block_width b \<and> 0 < block_height b)
     (fresh sizes)"
  by (induction sizes) (auto simp: whole_sizes_def positive_def fresh_def blk_def Ints_def)

lemma Packer_whole_nodes:
  assumes W: "of_int \<lfloor>W\<rfloor> = W" "0 < W" and H: "of_int \<lfloor>H\<rfloor> = H" "0 < H"
    and sizes: "whole_sizes sizes" "positive sizes"
  shows "\<exists>rt' bs. Packer_fit (Packer_init W H) (fresh sizes) = Inr (rt', bs) \<and>
           all_nodes (\<lambda>n. whole n \<and> nonneg_size n \<and> lies_in (rect_of n) (0, 0, W, H)) rt'"
proof -
  let ?P = "\<lambda>n. (whole n \<and> nonneg_size n \<and> lies_in (rect_of n) (0, 0, W, H)) \<and> shape n"
  have "\<exists>rt' bs. Packer_fit (Packer_init W H) (fresh sizes) = Inr (rt', bs) \<and> all_nodes ?P rt'"
  proof (rule Packer_fit_inv[where B = "\<lambda>w h. (w \<in> \<int> \<and> h \<in> \<int>) \<and> 0 < w \<and> 0 < h"])
    fix a b assume "similar a b" "?P a"
    then show "?P b"
      by (auto intro: similar_shape similar_whole similar_nonneg)
         (simp add: similar_def same_rect_def rect_of_def)
  next
    fix n assume "?P n" then show "shape n" by simp
  next
    fix n width height
    assume "(width \<in> \<int> \<and> height \<in> \<int>) \<and> 0 < width \<and> 0 < height" "?P n" "\<not> used n"
      "width \<le> node_width n" "height \<le> node_height n"
    then show "?P (splitNode n width height) \<and>
       ?P (region (node_x n + width) (node_y n) (node_width n - width) height) \<and>
       ?P (region (node_x n) (node_y n + height) (node_width n) (node_height n - height))"
      by (simp add: whole_iff nonneg_size_def rect_of_def splitNode_def region_def shape_def)
  next
    from W H show "all_nodes ?P (Packer_init W H)"
      by (simp add: Packer_init_def region_def whole_def nonneg_size_def rect_of_def shape_def)
  next
    from sizes show "list_all (\<lambda>b. (block_width b \<in> \<int> \<and> block_height b \<in> \<int>) \<and>
        0 < block_width b \<and> 0 < block_height b) (fresh sizes)"
      by (rule whole_fresh)
  qed
  then show ?thesis by (auto simp: all_nodes_conj)
qed

lemma GrowingPacker_square_whole_nodes:
  assumes W: "of_int \<lfloor>W\<rfloor> = W" "0 < W" and sizes: "whole_sizes sizes" "positive sizes"
  shows "\<exists>this' bs. GrowingPacker_fit (GrowingPacker_init W W) (fresh sizes) = Inr (this', bs) \<and>
           aspectRatio this' = 1 \<and> all_nodes whole (root this')"
proof -
  have "\<exists>this' bs. GrowingPacker_fit (GrowingPacker_init W W) (fresh sizes) = Inr (this', bs) \<and>
          squared this'"
  proof (rule GrowingPacker_fit_inv[where B = "\<lambda>w h. (w \<in> \<int> \<and> h \<in> \<int>) \<and> 0 < w \<and> 0 < h"])
    fix this assume "squared this"
    then show "all_nodes shape (root this)" by (simp add: squared_def all_nodes_conj)
  next
    fix this :: GrowingPacker and p and width height :: rat
    assume B: "(width \<in> \<int> \<and> height \<in> \<int>) \<and> 0 < width \<and> 0 < height" and s: "squared this"
      and fd: "findNode (root this) width height = Inr (Some p)"
    have "all_nodes (\<lambda>n. whole n \<and> shape n) (splitAt (root this) p width height)"
    proof (rule all_nodes_splitAt[OF _ _ fd])
      fix a b assume "similar a b" "whole a \<and> shape a"
      then show "whole b \<and> shape b" by (auto intro: similar_shape similar_whole)
    next
      fix n assume "whole n \<and> shape n"
      with B show "(whole (splitNode n width height) \<and> shape (splitNode n width height)) \<and>
         (whole (region (node_x n + width) (node_y n) (node_width n - width) height) \<and>
          shape (region (node_x n + width) (node_y n) (node_width n - width) height)) \<and>
         (whole (region (node_x n) (node_y n + height) (node_width n) (node_height n - height)) \<and>
          shape (region (node_x n) (node_y n + height) (node_width n) (node_height n - height)))"
        by (simp add: whole_iff splitNode_def region_def shape_def)
    next
      from s show "all_nodes (\<lambda>n. whole n \<and> shape n) (root this)" by (simp add: squared_def)
    qed
    with s show "squared (this\<lparr>root := splitAt (root this) p width height\<rparr>)"
      by (simp add: squared_def)
  next
    fix this :: GrowingPacker and width height :: rat
    assume B: "(width \<in> \<int> \<and> height \<in> \<int>) \<and> 0 < width \<and> 0 < height" and s: "squared this"
    from s have "whole (root this)" by (auto simp: squared_def dest: all_nodes_root)
    with B s show "squared (this\<lparr>root := grownRight this width height\<rparr>)"
      by (simp add: squared_def grownRight_def Let_def whole_iff region_def shape_def)
  next
    fix this :: GrowingPacker and width height :: rat
    assume B: "(width \<in> \<int> \<and> height \<in> \<int>) \<and> 0 < width \<and> 0 < height" and s: "squared this"
    from s have "whole (root this)" by (auto simp: squared_def dest: all_nodes_root)
    with B s show "squared (this\<lparr>root := grownDown this width height\<rparr>)"
      by (simp add: squared_def grownDown_def Let_def whole_iff region_def shape_def)
  next
    from W show "squared (GrowingPacker_init W W)"
      by (simp add: squared_def GrowingPacker_init_def region_def whole_def shape_def)
  next
    from sizes show "list_all (\<lambda>b. (block_width b \<in> \<int> \<and> block_height b \<in> \<int>) \<and>
        0 < block_width b \<and> 0 < block_height b) (fresh sizes)"
      by (rule whole_fresh)
  qed
  then show ?thesis by (auto simp: squared_def all_nodes_conj)
qed


section \<open>Footprints apart and inside the root\<close>

text \<open>
  The theorems of this section are about the exact arithmetic of the model: they say what
  the algorithm does when nothing is rounded. In doubles a rounded sum or product can
  move an edge by one unit in the last place, so that two regions overlap by that much
  or a strip is that much too low for the block it was made for.
\<close>

lemma overlap_common_point:
  assumes "0 < w1" "0 < h1" "0 < w2" "0 < h2"
  shows "overlap (x1, y1, w1, h1) (x2, y2, w2, h2) \<longleftrightarrow>
         (\<exists>px py. x1 < px \<and> px < x1 + w1 \<and> y1 < py \<and> py < y1 + h1 \<and>
                  x2 < px \<and> px < x2 + w2 \<and> y2 < py \<and> py < y2 + h2)"
proof
  assume o: "overlap (x1, y1, w1, h1) (x2, y2, w2, h2)"
  with assms have m: "max x1 x2 < min (x1 + w1) (x2 + w2)" "max y1 y2 < min (y1 + h1) (y2 + h2)"
    by simp_all
  from dense[OF m(1)] obtain px where px: "max x1 x2 < px" "px < min (x1 + w1) (x2 + w2)" by blast
  from dense[OF m(2)] obtain py where py: "max y1 y2 < py" "py < min (y1 + h1) (y2 + h2)" by blast
  from px py have "x1 < px \<and> px < x1 + w1 \<and> y1 < py \<and> py < y1 + h1 \<and>
                  x2 < px \<and> px < x2 + w2 \<and> y2 < py \<and> py < y2 + h2"
    by simp
  then show "\<exists>px py. x1 < px \<and> px < x1 + w1 \<and> y1 < py \<and> py < y1 + h1 \<and>
                  x2 < px \<and> px < x2 + w2 \<and> y2 < py \<and> py < y2 + h2"
    by blast
next
  assume "\<exists>px py. x1 < px \<and> px < x1 + w1 \<and> y1 < py \<and> py < y1 + h1 \<and>
                  x2 < px \<and> px < x2 + w2 \<and> y2 < py \<and> py < y2 + h2"
  then obtain px py where "x1 < px" "px < x1 + w1" "y1 < py" "py < y1 + h1"
                  "x2 < px" "px < x2 + w2" "y2 < py" "py < y2 + h2" by blast
  then show "overlap (x1, y1, w1, h1) (x2, y2, w2, h2)" by simp
qed

lemma apart_nth:
  "apart rs \<Longrightarrow> i < j \<Longrightarrow> j < length rs \<Longrightarrow> \<not> overlap (rs ! i) (rs ! j)"
  by (simp add: apart_def sorted_wrt_iff_nth_less)

lemma overlap_sym: "overlap a b \<longleftrightarrow> overlap b a"
  by (cases a; cases b) auto

lemma apart_within:
  "\<not> overlap a l \<Longrightarrow> lies_in c l \<Longrightarrow> \<not> overlap a c"
  by (cases a; cases l; cases c) auto

lemma apart_within':
  "\<not> overlap l a \<Longrightarrow> lies_in c l \<Longrightarrow> \<not> overlap c a"
  by (cases a; cases l; cases c) auto

lemma within_trans: "lies_in a b \<Longrightarrow> lies_in b c \<Longrightarrow> lies_in a c"
  by (cases a; cases b; cases c) auto

lemma leaves_region [simp]: "leaves (region x y w h) = [(x, y, w, h)]"
  by (simp add: region_def)

lemma leaves_splitAt:
  "findNode rt width height = Inr (Some p) \<Longrightarrow>
   \<exists>pre post n. nodeAt rt p = Some n \<and> \<not> used n \<and>
     width \<le> node_width n \<and> height \<le> node_height n \<and>
     leaves rt = pre @ rect_of n # post \<and>
     leaves (splitAt rt p width height) =
       pre @ (node_x n + width, node_y n, node_width n - width, height) #
             (node_x n, node_y n + height, node_width n, node_height n - height) # post"
proof (induction rt arbitrary: p)
  case (Node x y w h u r d)
  show ?case
  proof (cases u)
    case False
    with Node.prems have p: "p = []" and fits: "width \<le> w" "height \<le> h"
      by (auto split: if_splits)
    show ?thesis
      apply (rule exI[of _ "[]"], rule exI[of _ "[]"], rule exI[of _ "Node x y w h u r d"])
      using False fits by (simp add: p splitAt_def splitNode_def rect_of_def)
  next
    case True
    from Node.prems True obtain rn where r: "r = Some rn"
      by (auto split: option.splits)
    show ?thesis
    proof (cases "findNode rn width height")
      case (Inl e)
      with Node.prems True r show ?thesis by simp
    next
      case (Inr res)
      show ?thesis
      proof (cases res)
        case (Some q)
        with Node.prems True r Inr have p: "p = GoRight # q" by simp
        from Node.IH(1)[of rn q] r Inr Some obtain pre post n where
          n: "nodeAt rn q = Some n" "\<not> used n" "width \<le> node_width n" "height \<le> node_height n"
          and l: "leaves rn = pre @ rect_of n # post"
          and l': "leaves (splitAt rn q width height) =
            pre @ (node_x n + width, node_y n, node_width n - width, height) #
             (node_x n, node_y n + height, node_width n, node_height n - height) # post"
          by auto
        show ?thesis
          apply (rule exI[of _ pre])
          apply (rule exI[of _ "post @ (case d of None \<Rightarrow> [] | Some dn \<Rightarrow> leaves dn)"])
          apply (rule exI[of _ n])
          using n l l' True r p by (simp add: splitAt_def)
      next
        case None
        with Node.prems True r Inr obtain dn where d: "d = Some dn"
          by (auto split: option.splits)
        from Node.prems True r Inr None d obtain q
          where q: "findNode dn width height = Inr (Some q)" and p: "p = GoDown # q"
          by (auto split: option.splits sum.splits)
        from Node.IH(2)[of dn q] d q obtain pre post n where
          n: "nodeAt dn q = Some n" "\<not> used n" "width \<le> node_width n" "height \<le> node_height n"
          and l: "leaves dn = pre @ rect_of n # post"
          and l': "leaves (splitAt dn q width height) =
            pre @ (node_x n + width, node_y n, node_width n - width, height) #
             (node_x n, node_y n + height, node_width n, node_height n - height) # post"
          by auto
        show ?thesis
          apply (rule exI[of _ "leaves rn @ pre"])
          apply (rule exI[of _ post])
          apply (rule exI[of _ n])
          using n l l' True r d p by (simp add: splitAt_def)
      qed
    qed
  qed
qed

lemma apart_replace:
  assumes ap: "apart (ps @ pre @ l # post)"
    and f: "lies_in f l" and r: "lies_in r l" and d: "lies_in d l"
    and fr: "\<not> overlap f r" and fd: "\<not> overlap f d" and rd: "\<not> overlap r d"
  shows "apart ((ps @ [f]) @ pre @ r # d # post)"
proof -
  have 1: "\<And>a c. \<not> overlap a l \<Longrightarrow> lies_in c l \<Longrightarrow> \<not> overlap a c" by (rule apart_within)
  have 2: "\<And>a c. \<not> overlap l a \<Longrightarrow> lies_in c l \<Longrightarrow> \<not> overlap c a" by (rule apart_within')
  have 3: "\<And>a b. \<not> overlap a b \<Longrightarrow> \<not> overlap b a" using overlap_sym by blast
  from ap have A: "sorted_wrt (\<lambda>a b. \<not> overlap a b) ps" "sorted_wrt (\<lambda>a b. \<not> overlap a b) pre"
    "sorted_wrt (\<lambda>a b. \<not> overlap a b) post"
    "\<forall>a\<in>set ps. \<forall>b\<in>set pre. \<not> overlap a b"
    "\<forall>a\<in>set ps. \<forall>b\<in>set post. \<not> overlap a b"
    "\<forall>a\<in>set pre. \<forall>b\<in>set post. \<not> overlap a b"
    "\<forall>a\<in>set ps. \<not> overlap a l" "\<forall>a\<in>set pre. \<not> overlap a l" "\<forall>b\<in>set post. \<not> overlap l b"
    by (auto simp: apart_def sorted_wrt_append)
  have L: "\<forall>a\<in>set ps \<union> set pre \<union> set post. \<not> overlap a l"
    using A(7-9) 3 by blast
  have C: "\<forall>a\<in>set ps \<union> set pre \<union> set post. \<not> overlap a c \<and> \<not> overlap c a"
    if "lies_in c l" for c
    using L 1[OF _ that] 3 by blast
  from fr fd rd have S: "\<not> overlap r f" "\<not> overlap d f" "\<not> overlap d r"
    by (auto dest: 3)
  show ?thesis
    unfolding apart_def sorted_wrt_append sorted_wrt.simps
    using A(1-6) C[OF f] C[OF r] C[OF d] fr fd rd S
    by auto
qed

lemma packed_split:
  assumes pk: "packed rt ps" and fd: "findNode rt width height = Inr (Some p)"
    and pos: "0 < width \<and> 0 < height"
  shows "\<exists>n. nodeAt rt p = Some n \<and>
           packed (splitAt rt p width height) (ps @ [(node_x n, node_y n, width, height)])"
proof -
  from leaves_splitAt[OF fd] obtain pre post n where
    n: "nodeAt rt p = Some n" "width \<le> node_width n" "height \<le> node_height n"
    and l: "leaves rt = pre @ rect_of n # post"
    and l': "leaves (splitAt rt p width height) =
            pre @ (node_x n + width, node_y n, node_width n - width, height) #
             (node_x n, node_y n + height, node_width n, node_height n - height) # post"
    by blast
  let ?f = "(node_x n, node_y n, width, height)"
  let ?r = "(node_x n + width, node_y n, node_width n - width, height)"
  let ?d = "(node_x n, node_y n + height, node_width n, node_height n - height)"
  from n pos have w: "lies_in ?f (rect_of n)" "lies_in ?r (rect_of n)" "lies_in ?d (rect_of n)"
    and o: "\<not> overlap ?f ?r" "\<not> overlap ?f ?d" "\<not> overlap ?r ?d"
    by (simp_all add: rect_of_def)
  from pk l have ap: "apart (ps @ pre @ rect_of n # post)" by (simp add: packed_def)
  have ap': "apart ((ps @ [?f]) @ pre @ ?r # ?d # post)"
    by (rule apart_replace[OF ap w o])
  from pk l have "lies_in (rect_of n) (rect_of rt)"
    and rest: "list_all (\<lambda>a. lies_in a (rect_of rt)) ps" "list_all (\<lambda>a. lies_in a (rect_of rt)) pre"
      "list_all (\<lambda>a. lies_in a (rect_of rt)) post"
    by (simp_all add: packed_def)
  with w have "lies_in ?f (rect_of rt)" "lies_in ?r (rect_of rt)" "lies_in ?d (rect_of rt)"
    by (blast intro: within_trans)+
  with rest ap' l' n(1) show ?thesis by (simp add: packed_def)
qed


subsection \<open>The fixed packer\<close>

text \<open>
  In \<^verbatim>\<open>Packer\<close> the footprints of one run never overlap and lie inside the root.
\<close>

lemma placed_Cons: "placed (b # bs) = placed [b] @ placed bs"
  by (simp split: option.splits)

lemma Packer_fit_block_packed:
  assumes pk: "packed rt ps" and pos: "0 < block_width b \<and> 0 < block_height b"
    and fresh: "block_fit b = None" and step: "Packer_fit_block rt b = Inr (rt', b')"
  shows "packed rt' (ps @ placed [b']) \<and> rect_of rt' = rect_of rt"
proof (cases "findNode rt (block_width b) (block_height b)")
  case (Inl e)
  with step show ?thesis by (simp add: Packer_fit_block_def)
next
  case (Inr res)
  show ?thesis
  proof (cases res)
    case None
    with Inr step pk fresh show ?thesis by (simp add: Packer_fit_block_def footprint_def)
  next
    case (Some p)
    with Inr have fd: "findNode rt (block_width b) (block_height b) = Inr (Some p)" by simp
    from packed_split[OF pk fd pos] obtain n where n: "nodeAt rt p = Some n"
      and pk': "packed (splitAt rt p (block_width b) (block_height b))
                  (ps @ [(node_x n, node_y n, block_width b, block_height b)])" by blast
    from findNode_splitAt[OF fd] n
    have "nodeAt (splitAt rt p (block_width b) (block_height b)) p =
            Some (splitNode n (block_width b) (block_height b))" by auto
    with fd step pk' show ?thesis
      by (auto simp: Packer_fit_block_def Let_def footprint_def splitNode_def)
  qed
qed

lemma Packer_fit_packed:
  "packed rt ps \<Longrightarrow> positive sizes \<Longrightarrow> Packer_fit rt (fresh sizes) = Inr (rt', bs) \<Longrightarrow>
   packed rt' (ps @ placed bs) \<and> rect_of rt' = rect_of rt"
proof (induction sizes arbitrary: rt ps rt' bs)
  case Nil
  then show ?case by (simp add: fresh_def)
next
  case (Cons s sizes)
  obtain w h where s: "s = (w, h)" by (cases s)
  from Cons.prems(2) s have pos: "0 < w \<and> 0 < h" and rest: "positive sizes"
    by (simp_all add: positive_def)
  from Cons.prems(3) s obtain rt1 b1 rt2 bs2 where
    s1: "Packer_fit_block rt (blk w h) = Inr (rt1, b1)"
    and s2: "Packer_fit rt1 (fresh sizes) = Inr (rt2, bs2)"
    and r: "rt' = rt2" "bs = b1 # bs2"
    by (auto simp: fresh_def split: sum.splits)
  from Packer_fit_block_packed[OF Cons.prems(1) _ _ s1] pos
  have p1: "packed rt1 (ps @ placed [b1])" and r1: "rect_of rt1 = rect_of rt"
    by (simp_all add: blk_def)
  from Cons.IH[OF p1 rest s2] r r1 show ?case
    by (auto split: option.splits)
qed

lemma packed_init: "packed (region 0 0 W H) []"
  by (simp add: packed_def apart_def rect_of_def region_def)

lemma packed_placed:
  assumes "packed rt ps" "node_x rt = 0" "node_y rt = 0"
  shows "apart ps \<and> list_all (\<lambda>a. inside a rt) ps"
proof -
  have "lies_in a (rect_of rt) \<Longrightarrow> inside a rt" for a
    using assms(2,3) by (cases a) (simp add: rect_of_def)
  with assms(1) show ?thesis
    by (auto simp: packed_def apart_def sorted_wrt_append list_all_iff)
qed

theorem fixed_packer_packs:
  assumes "0 < W" "0 < H" "positive sizes"
  shows "\<exists>rt' bs. Packer_fit (Packer_init W H) (fresh sizes) = Inr (rt', bs) \<and>
           apart (placed bs) \<and> list_all (\<lambda>a. inside a rt') (placed bs) \<and>
           node_width rt' = W \<and> node_height rt' = H"
proof -
  from Packer_fit_returns[of W H "fresh sizes"] obtain rt' bs
    where r: "Packer_fit (Packer_init W H) (fresh sizes) = Inr (rt', bs)" by blast
  from Packer_fit_packed[OF packed_init assms(3) r[unfolded Packer_init_def]]
  have pk: "packed rt' (placed bs)" and rc: "rect_of rt' = rect_of (region 0 0 W H)" by simp_all
  from rc have o: "node_x rt' = 0" "node_y rt' = 0" "node_width rt' = W" "node_height rt' = H"
    by (simp_all add: rect_of_def region_def)
  from packed_placed[OF pk o(1,2)] r o show ?thesis by blast
qed


subsection \<open>The growing packer made at least as wide as high\<close>

text \<open>
  When \<^verbatim>\<open>GrowingPacker\<close> is made with \<open>height \<le> width\<close>, the root only grows, the
  footprints of one run never overlap and lie inside the final root, and a block is left
  unplaced exactly when it is both wider and taller than the root.
\<close>

lemma landscape_init:
  assumes "0 < H" "H \<le> W"
  shows "landscape (GrowingPacker_init W H) []"
proof -
  from assms have "W / H > 1 \<or> W = H" by (auto simp: field_simps)
  with assms show ?thesis
    by (auto simp: landscape_def GrowingPacker_init_def packed_init) (simp_all add: region_def)
qed

lemma landscape_split:
  assumes ls: "landscape this ps" and fd: "findNode (root this) width height = Inr (Some p)"
    and pos: "0 < width \<and> 0 < height"
  shows "\<exists>n. nodeAt (root this) p = Some n \<and>
           nodeAt (splitAt (root this) p width height) p = Some (splitNode n width height) \<and>
           width \<le> node_width (root this) \<and>
           landscape (this\<lparr>root := splitAt (root this) p width height\<rparr>)
             (ps @ [(node_x n, node_y n, width, height)])"
proof -
  from ls have pk: "packed (root this) ps" and sh: "all_nodes shape (root this)"
    by (simp_all add: landscape_def)
  from packed_split[OF pk fd pos] obtain n where n: "nodeAt (root this) p = Some n"
    and pk': "packed (splitAt (root this) p width height) (ps @ [(node_x n, node_y n, width, height)])"
    by blast
  from findNode_splitAt[OF fd] n
  have at: "nodeAt (splitAt (root this) p width height) p = Some (splitNode n width height)"
    and fits: "width \<le> node_width n" by auto
  from leaves_splitAt[OF fd] n obtain pre post where "leaves (root this) = pre @ rect_of n # post"
    by auto
  with pk have "lies_in (rect_of n) (rect_of (root this))" by (simp add: packed_def)
  with ls fits have le: "width \<le> node_width (root this)"
    by (simp add: rect_of_def landscape_def)
  have sh': "all_nodes shape (splitAt (root this) p width height)"
    by (rule all_nodes_splitAt[OF _ _ fd sh]) (auto intro: similar_shape)
  have "rect_of (splitAt (root this) p width height) = rect_of (root this)" by simp
  then have "same_rect (splitAt (root this) p width height) (root this)"
    by (simp add: rect_of_def same_rect_def)
  with ls pk' sh' have "landscape (this\<lparr>root := splitAt (root this) p width height\<rparr>)
             (ps @ [(node_x n, node_y n, width, height)])"
    by (simp add: landscape_def same_rect_def)
  with n at le show ?thesis by blast
qed

lemma apart_insert:
  assumes "apart (ps @ ls)" "\<forall>a\<in>set ps \<union> set ls. \<not> overlap a s \<and> \<not> overlap s a"
  shows "apart (ps @ s # ls)" "apart (ps @ ls @ [s])"
  using assms by (auto simp: apart_def sorted_wrt_append)

lemma landscape_grownRight:
  assumes ls: "landscape this ps" and pos: "0 < width \<and> 0 < height"
    and can: "height \<le> node_height (root this)"
  shows "landscape (this\<lparr>root := grownRight this width height\<rparr>) ps \<and>
         node_width (root this) \<le> node_width (grownRight this width height) \<and>
         node_height (root this) \<le> node_height (grownRight this width height) \<and>
         findNode (grownRight this width height) width height = Inr (Some [GoRight])"
proof -
  let ?W = "node_width (root this)" and ?H = "node_height (root this)" and ?a = "aspectRatio this"
  let ?nh = "(?W + width) * (1 / ?a)"
  from ls have a: "0 < ?a" and WH: "?W = ?a * ?H" and H: "0 \<le> ?H"
    and o: "node_x (root this) = 0" "node_y (root this) = 0"
    and sh: "all_nodes shape (root this)" and pk: "packed (root this) ps"
    by (simp_all add: landscape_def)
  from a WH have nh: "?nh = ?H + width / ?a" by (simp add: field_simps)
  with a pos have Hle: "?H \<le> ?nh" by simp
  from a H WH have W: "0 \<le> ?W" by simp
  from a have inv: "?W + width = ?a * ?nh" by simp
  have r: "rect_of (root this) = (0, 0, ?W, ?H)" using o by (simp add: rect_of_def)
  from pk r have all: "\<forall>c\<in>set ps \<union> set (leaves (root this)). lies_in c (0, 0, ?W, ?H)"
    by (auto simp: packed_def list_all_iff)
  have sep: "\<forall>c\<in>set ps \<union> set (leaves (root this)).
      \<not> overlap c (?W, 0, width, ?nh) \<and> \<not> overlap (?W, 0, width, ?nh) c"
  proof
    fix c assume "c \<in> set ps \<union> set (leaves (root this))"
    with all have "lies_in c (0, 0, ?W, ?H)" by blast
    then show "\<not> overlap c (?W, 0, width, ?nh) \<and> \<not> overlap (?W, 0, width, ?nh) c"
      by (cases c) auto
  qed
  from pk have "apart (ps @ leaves (root this))" by (simp add: packed_def)
  from apart_insert(1)[OF this sep]
  have ap: "apart (ps @ (?W, 0, width, ?nh) # leaves (root this))" .
  have inn: "\<forall>c\<in>set ps \<union> set (leaves (root this)). lies_in c (0, 0, ?W + width, ?nh)"
  proof
    fix c assume "c \<in> set ps \<union> set (leaves (root this))"
    with all have "lies_in c (0, 0, ?W, ?H)" by blast
    with Hle pos show "lies_in c (0, 0, ?W + width, ?nh)" by (cases c) auto
  qed
  from W pos Hle H have strip: "lies_in (?W, 0, width, ?nh) (0, 0, ?W + width, ?nh)" by simp
  have pk': "packed (grownRight this width height) ps"
    using ap inn strip
    by (simp add: packed_def grownRight_def Let_def rect_of_def list_all_iff)
  have sh': "all_nodes shape (grownRight this width height)"
    using sh by (simp add: grownRight_def Let_def shape_def[of "Node _ _ _ _ _ _ _"])
  have ls': "landscape (this\<lparr>root := grownRight this width height\<rparr>) ps"
    using pk' sh' a inv H Hle
    by (simp add: landscape_def) (simp add: grownRight_def Let_def)
  have dims: "node_width (grownRight this width height) = ?W + width"
    "node_height (grownRight this width height) = ?nh"
    by (simp_all add: grownRight_def Let_def)
  have fd: "findNode (grownRight this width height) width height = Inr (Some [GoRight])"
    using can Hle by (simp add: grownRight_def Let_def region_def)
  from ls' dims pos Hle fd show ?thesis by simp
qed

lemma landscape_grownDown:
  assumes ls: "landscape this ps" and pos: "0 < width \<and> 0 < height"
    and can: "width \<le> node_width (root this)"
    and none: "findNode (root this) width height = Inr None"
  shows "landscape (this\<lparr>root := grownDown this width height\<rparr>) ps \<and>
         node_width (root this) \<le> node_width (grownDown this width height) \<and>
         node_height (root this) \<le> node_height (grownDown this width height) \<and>
         findNode (grownDown this width height) width height = Inr (Some [GoDown])"
proof -
  let ?W = "node_width (root this)" and ?H = "node_height (root this)" and ?a = "aspectRatio this"
  let ?nw = "(?H + height) * ?a"
  from ls have a: "0 < ?a" and WH: "?W = ?a * ?H" and H: "0 \<le> ?H"
    and o: "node_x (root this) = 0" "node_y (root this) = 0"
    and sh: "all_nodes shape (root this)" and pk: "packed (root this) ps"
    by (simp_all add: landscape_def)
  from WH have nw: "?nw = ?W + height * ?a" by (simp add: field_simps)
  with a pos have Wle: "?W \<le> ?nw" by simp
  have r: "rect_of (root this) = (0, 0, ?W, ?H)" using o by (simp add: rect_of_def)
  from pk r have all: "\<forall>c\<in>set ps \<union> set (leaves (root this)). lies_in c (0, 0, ?W, ?H)"
    by (auto simp: packed_def list_all_iff)
  have sep: "\<forall>c\<in>set ps \<union> set (leaves (root this)).
      \<not> overlap c (0, ?H, ?nw, height) \<and> \<not> overlap (0, ?H, ?nw, height) c"
  proof
    fix c assume "c \<in> set ps \<union> set (leaves (root this))"
    with all have "lies_in c (0, 0, ?W, ?H)" by blast
    then show "\<not> overlap c (0, ?H, ?nw, height) \<and> \<not> overlap (0, ?H, ?nw, height) c"
      by (cases c) auto
  qed
  from pk have "apart (ps @ leaves (root this))" by (simp add: packed_def)
  from apart_insert(2)[OF this sep]
  have ap: "apart (ps @ leaves (root this) @ [(0, ?H, ?nw, height)])" .
  have inn: "\<forall>c\<in>set ps \<union> set (leaves (root this)). lies_in c (0, 0, ?nw, ?H + height)"
  proof
    fix c assume "c \<in> set ps \<union> set (leaves (root this))"
    with all have "lies_in c (0, 0, ?W, ?H)" by blast
    with Wle pos show "lies_in c (0, 0, ?nw, ?H + height)" by (cases c) auto
  qed
  from H have strip: "lies_in (0, ?H, ?nw, height) (0, 0, ?nw, ?H + height)" by simp
  have pk': "packed (grownDown this width height) ps"
    using ap inn strip
    by (simp add: packed_def grownDown_def Let_def rect_of_def list_all_iff)
  have sh': "all_nodes shape (grownDown this width height)"
    using sh by (simp add: grownDown_def Let_def shape_def[of "Node _ _ _ _ _ _ _"])
  have ls': "landscape (this\<lparr>root := grownDown this width height\<rparr>) ps"
    using pk' sh' a H pos
    by (simp add: landscape_def) (simp add: grownDown_def Let_def mult.commute)
  have dims: "node_width (grownDown this width height) = ?nw"
    "node_height (grownDown this width height) = ?H + height"
    by (simp_all add: grownDown_def Let_def)
  have fd: "findNode (grownDown this width height) width height = Inr (Some [GoDown])"
    using can Wle none by (simp add: grownDown_def Let_def region_def)
  from ls' dims pos Wle fd show ?thesis by simp
qed


lemma findAndSplit_landscape:
  assumes ls: "landscape this ps" and fd: "findNode (root this) width height = Inr (Some p)"
    and pos: "0 < width \<and> 0 < height"
  shows "\<exists>this' n. findAndSplit this width height = Inr (this', Some n) \<and>
           landscape this' (ps @ [(node_x n, node_y n, width, height)]) \<and>
           rect_of (root this') = rect_of (root this)"
proof -
  from landscape_split[OF ls fd pos] obtain n where
    "nodeAt (splitAt (root this) p width height) p = Some (splitNode n width height)"
    "landscape (this\<lparr>root := splitAt (root this) p width height\<rparr>)
             (ps @ [(node_x n, node_y n, width, height)])" by blast
  with fd show ?thesis
    by (auto simp: findAndSplit_def Let_def splitNode_def)
qed

lemma growRight_landscape:
  assumes ls: "landscape this ps" and pos: "0 < width \<and> 0 < height"
    and can: "height \<le> node_height (root this)"
  shows "\<exists>this' n. growRight this width height = Inr (this', Some n) \<and>
           landscape this' (ps @ [(node_x n, node_y n, width, height)]) \<and>
           node_width (root this) \<le> node_width (root this') \<and>
           node_height (root this) \<le> node_height (root this')"
proof -
  let ?g = "this\<lparr>root := grownRight this width height\<rparr>"
  from landscape_grownRight[OF ls pos can] have g: "landscape ?g ps"
    and m: "node_width (root this) \<le> node_width (root ?g)"
      "node_height (root this) \<le> node_height (root ?g)"
    and fd: "findNode (root ?g) width height = Inr (Some [GoRight])" by simp_all
  from findAndSplit_landscape[OF g fd pos] obtain this' n where
    r: "findAndSplit ?g width height = Inr (this', Some n)"
    "landscape this' (ps @ [(node_x n, node_y n, width, height)])"
    "rect_of (root this') = rect_of (root ?g)" by blast
  from r(3) have "node_width (root this') = node_width (root ?g)"
    "node_height (root this') = node_height (root ?g)" by (simp_all add: rect_of_def)
  with m r(1,2) show ?thesis by (auto simp: growRight_def)
qed

lemma growDown_landscape:
  assumes ls: "landscape this ps" and pos: "0 < width \<and> 0 < height"
    and can: "width \<le> node_width (root this)"
    and none: "findNode (root this) width height = Inr None"
  shows "\<exists>this' n. growDown this width height = Inr (this', Some n) \<and>
           landscape this' (ps @ [(node_x n, node_y n, width, height)]) \<and>
           node_width (root this) \<le> node_width (root this') \<and>
           node_height (root this) \<le> node_height (root this')"
proof -
  let ?g = "this\<lparr>root := grownDown this width height\<rparr>"
  from landscape_grownDown[OF ls pos can none] have g: "landscape ?g ps"
    and m: "node_width (root this) \<le> node_width (root ?g)"
      "node_height (root this) \<le> node_height (root ?g)"
    and fd: "findNode (root ?g) width height = Inr (Some [GoDown])" by simp_all
  from findAndSplit_landscape[OF g fd pos] obtain this' n where
    r: "findAndSplit ?g width height = Inr (this', Some n)"
    "landscape this' (ps @ [(node_x n, node_y n, width, height)])"
    "rect_of (root this') = rect_of (root ?g)" by blast
  from r(3) have "node_width (root this') = node_width (root ?g)"
    "node_height (root this') = node_height (root ?g)" by (simp_all add: rect_of_def)
  with m r(1,2) show ?thesis by (auto simp: growDown_def)
qed

lemma growNode_landscape:
  assumes ls: "landscape this ps" and pos: "0 < width \<and> 0 < height"
    and none: "findNode (root this) width height = Inr None"
  shows "\<exists>this' nd. growNode this width height = Inr (this', nd) \<and>
           landscape this'
             (ps @ (case nd of None \<Rightarrow> [] | Some n \<Rightarrow> [(node_x n, node_y n, width, height)])) \<and>
           node_width (root this) \<le> node_width (root this') \<and>
           node_height (root this) \<le> node_height (root this') \<and>
           (nd = None \<longleftrightarrow>
              node_width (root this) < width \<and> node_height (root this) < height)"
proof (cases "height \<le> node_height (root this) \<or> width \<le> node_width (root this)")
  case False
  then have "growNode this width height = Inr (this, None)"
    by (simp add: growNode_def shouldGrowRight_def shouldGrowDown_def canGrowRight_def canGrowDown_def)
  with False ls show ?thesis by auto
next
  case True
  have "growNode this width height = growRight this width height \<and> height \<le> node_height (root this) \<or>
        growNode this width height = growDown this width height \<and> width \<le> node_width (root this)"
    using True
    by (auto simp: growNode_def shouldGrowRight_def shouldGrowDown_def canGrowRight_def canGrowDown_def)
  then show ?thesis
  proof
    assume g: "growNode this width height = growRight this width height \<and> height \<le> node_height (root this)"
    with growRight_landscape[OF ls pos] obtain this' n where
      "growRight this width height = Inr (this', Some n)"
      "landscape this' (ps @ [(node_x n, node_y n, width, height)])"
      "node_width (root this) \<le> node_width (root this')"
      "node_height (root this) \<le> node_height (root this')" by blast
    with g show ?thesis by auto
  next
    assume g: "growNode this width height = growDown this width height \<and> width \<le> node_width (root this)"
    with growDown_landscape[OF ls pos _ none] obtain this' n where
      "growDown this width height = Inr (this', Some n)"
      "landscape this' (ps @ [(node_x n, node_y n, width, height)])"
      "node_width (root this) \<le> node_width (root this')"
      "node_height (root this) \<le> node_height (root this')" by blast
    with g show ?thesis by auto
  qed
qed

lemma GrowingPacker_fit_block_landscape:
  assumes ls: "landscape this ps" and pos: "0 < block_width b \<and> 0 < block_height b"
  shows "\<exists>this' b'. GrowingPacker_fit_block this b = Inr (this', b') \<and>
           landscape this' (ps @ placed [b']) \<and>
           node_width (root this) \<le> node_width (root this') \<and>
           node_height (root this) \<le> node_height (root this') \<and>
           (block_fit b' = None \<longleftrightarrow>
              node_width (root this) < block_width b \<and> node_height (root this) < block_height b)"
proof -
  from ls have "all_nodes shape (root this)" by (simp add: landscape_def)
  from findNode_total[OF this] obtain res
    where res: "findNode (root this) (block_width b) (block_height b) = Inr res" by blast
  show ?thesis
  proof (cases res)
    case None
    with res have none: "findNode (root this) (block_width b) (block_height b) = Inr None" by simp
    from growNode_landscape[OF ls pos none] obtain this' nd where
      g: "growNode this (block_width b) (block_height b) = Inr (this', nd)"
      and l: "landscape this'
             (ps @ (case nd of None \<Rightarrow> [] | Some n \<Rightarrow> [(node_x n, node_y n, block_width b, block_height b)]))"
      and m: "node_width (root this) \<le> node_width (root this')"
         "node_height (root this) \<le> node_height (root this')"
         "nd = None \<longleftrightarrow>
              node_width (root this) < block_width b \<and> node_height (root this) < block_height b"
      by blast
    from none g have s: "GrowingPacker_fit_block this b = Inr (this', b\<lparr>block_fit := nd\<rparr>)"
      by (simp add: GrowingPacker_fit_block_def)
    from l have "landscape this' (ps @ placed [b\<lparr>block_fit := nd\<rparr>])"
      by (cases nd) (simp_all add: footprint_def)
    with s m show ?thesis by simp
  next
    case (Some p)
    with res have fd: "findNode (root this) (block_width b) (block_height b) = Inr (Some p)" by simp
    let ?rt = "splitAt (root this) p (block_width b) (block_height b)"
    from landscape_split[OF ls fd pos] obtain n where
      at: "nodeAt ?rt p = Some (splitNode n (block_width b) (block_height b))"
      and le: "block_width b \<le> node_width (root this)"
      and l: "landscape (this\<lparr>root := ?rt\<rparr>) (ps @ [(node_x n, node_y n, block_width b, block_height b)])"
      by blast
    from fd at have s: "GrowingPacker_fit_block this b =
        Inr (this\<lparr>root := ?rt\<rparr>, b\<lparr>block_fit := Some (splitNode n (block_width b) (block_height b))\<rparr>)"
      by (simp add: GrowingPacker_fit_block_def Let_def)
    from l have "landscape (this\<lparr>root := ?rt\<rparr>)
        (ps @ placed [b\<lparr>block_fit := Some (splitNode n (block_width b) (block_height b))\<rparr>])"
      by (simp add: footprint_def splitNode_def)
    moreover have "rect_of ?rt = rect_of (root this)" by simp
    then have "node_width ?rt = node_width (root this)" "node_height ?rt = node_height (root this)"
      by (simp_all add: rect_of_def)
    ultimately show ?thesis using s le by auto
  qed
qed

lemma GrowingPacker_fit_landscape:
  "landscape this ps \<Longrightarrow> positive sizes \<Longrightarrow>
   \<exists>this' bs. GrowingPacker_fit this (fresh sizes) = Inr (this', bs) \<and>
     landscape this' (ps @ placed bs) \<and>
     node_width (root this) \<le> node_width (root this') \<and>
     node_height (root this) \<le> node_height (root this')"
proof (induction sizes arbitrary: this ps)
  case Nil
  then show ?case by (simp add: fresh_def)
next
  case (Cons s sizes)
  obtain w h where s: "s = (w, h)" by (cases s)
  from Cons.prems(2) s have pos: "0 < block_width (blk w h) \<and> 0 < block_height (blk w h)"
    and rest: "positive sizes"
    by (simp_all add: positive_def blk_def)
  from GrowingPacker_fit_block_landscape[OF Cons.prems(1) pos] obtain this1 b1 where
    s1: "GrowingPacker_fit_block this (blk w h) = Inr (this1, b1)"
    and l1: "landscape this1 (ps @ placed [b1])"
    and m1: "node_width (root this) \<le> node_width (root this1)"
      "node_height (root this) \<le> node_height (root this1)" by blast
  from Cons.IH[OF l1 rest] obtain this2 bs2 where
    s2: "GrowingPacker_fit this1 (fresh sizes) = Inr (this2, bs2)"
    and l2: "landscape this2 ((ps @ placed [b1]) @ placed bs2)"
    and m2: "node_width (root this1) \<le> node_width (root this2)"
      "node_height (root this1) \<le> node_height (root this2)" by blast
  have f: "fresh (s # sizes) = blk w h # fresh sizes" by (simp add: fresh_def s)
  from l2 have "landscape this2 (ps @ placed (b1 # bs2))"
    by (auto split: option.splits)
  with s1 s2 m1 m2 show ?case unfolding f by auto
qed

theorem growing_landscape_packs:
  assumes "0 < H" "H \<le> W" "positive sizes"
  shows "\<exists>this' bs. GrowingPacker_fit (GrowingPacker_init W H) (fresh sizes) = Inr (this', bs) \<and>
           apart (placed bs) \<and> list_all (\<lambda>a. inside a (root this')) (placed bs) \<and>
           W \<le> node_width (root this') \<and> H \<le> node_height (root this')"
proof -
  from GrowingPacker_fit_landscape[OF landscape_init[OF assms(1,2)] assms(3)] obtain this' bs where
    r: "GrowingPacker_fit (GrowingPacker_init W H) (fresh sizes) = Inr (this', bs)"
    and l: "landscape this' (placed bs)"
    and m: "node_width (root (GrowingPacker_init W H)) \<le> node_width (root this')"
      "node_height (root (GrowingPacker_init W H)) \<le> node_height (root this')" by auto
  from l have "packed (root this') (placed bs)" "node_x (root this') = 0" "node_y (root this') = 0"
    by (simp_all add: landscape_def)
  from packed_placed[OF this] r m show ?thesis
    by (auto simp: GrowingPacker_init_def region_def)
qed

section \<open>Concrete runs\<close>

text \<open>
  C7. \<^verbatim>\<open>splitNode(node, w, h)\<close> marks the node used, sets \<^verbatim>\<open>node.down\<close> to the region
  \<open>(x, y + h, width, height - h)\<close> and \<^verbatim>\<open>node.right\<close> to the region
  \<open>(x + w, y, width - w, h)\<close>, and returns the node with its own \<^verbatim>\<open>x\<close>, \<^verbatim>\<open>y\<close>,
  \<^verbatim>\<open>width\<close> and \<^verbatim>\<open>height\<close> as they were before the call.
\<close>

theorem splitNode_spec:
  "used (splitNode node width height) = True \<and>
   down (splitNode node width height) =
     Some (Node (node_x node) (node_y node + height) (node_width node) (node_height node - height)
             False None None) \<and>
   right (splitNode node width height) =
     Some (Node (node_x node + width) (node_y node) (node_width node - width) height
             False None None) \<and>
   node_x (splitNode node width height) = node_x node \<and>
   node_y (splitNode node width height) = node_y node \<and>
   node_width (splitNode node width height) = node_width node \<and>
   node_height (splitNode node width height) = node_height node"
  by (simp add: splitNode_def region_def)

text \<open>
  C8. A \<^verbatim>\<open>GrowingPacker\<close> made with 100 by 100 has aspect ratio 1. After the first block of
  100 by 100 is placed by find and split, no node is found for a second block of 100 by
  100; \<^verbatim>\<open>shouldGrowRight\<close> and \<^verbatim>\<open>shouldGrowDown\<close> are false, \<^verbatim>\<open>canGrowRight\<close> is true, so
  \<^verbatim>\<open>growNode\<close> takes \<^verbatim>\<open>growRight\<close>, and the root that results is 200 wide and 200 high.
\<close>

theorem growing_square_scenario:
  "GrowingPacker_fit (GrowingPacker_init 100 100) [blk 100 100] =
     Inr (\<lparr>aspectRatio = 1,
            root = Node 0 0 100 100 True (Some (region 100 0 0 100)) (Some (region 0 100 100 0))\<rparr>,
          [(blk 100 100)\<lparr>block_fit :=
             Some (Node 0 0 100 100 True (Some (region 100 0 0 100)) (Some (region 0 100 100 0)))\<rparr>]) \<and>
   (let this = \<lparr>aspectRatio = 1,
            root = Node 0 0 100 100 True (Some (region 100 0 0 100)) (Some (region 0 100 100 0))\<rparr>
    in findNode (root this) 100 100 = Inr None \<and>
       shouldGrowRight this 100 100 = False \<and>
       shouldGrowDown this 100 100 = False \<and>
       canGrowRight this 100 100 = True \<and>
       growNode this 100 100 = growRight this 100 100 \<and>
       map_sum id (\<lambda>(this', nd). (node_width (root this'), node_height (root this')))
         (growNode this 100 100) = Inr (200, 200)) \<and>
   map_sum id (\<lambda>(this', blocks). (node_width (root this'), node_height (root this'), map footprint blocks))
     (GrowingPacker_fit (GrowingPacker_init 100 100) [blk 100 100, blk 100 100]) =
     Inr (200, 200, [Some (0, 0, 100, 100), Some (100, 0, 100, 100)])"
  by (simp add: run_defs)

text \<open>
  C9. \<^verbatim>\<open>FixedSizePacker(100, 100).fit\<close> on blocks of 50 by 50, 50 by 50 and 60 by 60 places
  the first at (0, 0) and the second at (50, 0), and leaves the third without a \<^verbatim>\<open>fit\<close>:
  the tree after the first two blocks has no free node for 60 by 60.
\<close>

theorem fixed_scenario:
  "map_sum id (\<lambda>(rt, blocks). map footprint blocks)
     (Packer_fit (Packer_init 100 100) [blk 50 50, blk 50 50, blk 60 60]) =
   Inr [Some (0, 0, 50, 50), Some (50, 0, 50, 50), None] \<and>
   map_sum id fst (Packer_fit (Packer_init 100 100) [blk 50 50, blk 50 50]) =
     Inr (Node 0 0 100 100 True
         (Some (Node 50 0 50 50 True (Some (region 100 0 0 50)) (Some (region 50 50 50 0))))
         (Some (region 0 50 100 50))) \<and>
   findNode (Node 0 0 100 100 True
         (Some (Node 50 0 50 50 True (Some (region 100 0 0 50)) (Some (region 50 50 50 0))))
         (Some (region 0 50 100 50))) 60 60 = Inr None"
  by (simp add: run_defs)

text \<open>
  C1, at a \<^verbatim>\<open>GrowingPacker\<close> made taller than wide. The claim is that two blocks that are
  both placed in one run never overlap. With \<^verbatim>\<open>new GrowingPacker(8, 64)\<close> the aspect ratio
  is 8; the second block of 8 by 64 makes \<^verbatim>\<open>growRight\<close> build a root of 16 by 2, and the
  third block of 8 by 3 makes \<^verbatim>\<open>growDown\<close> add a strip at \<open>y = 2\<close>, across the first
  block: the first and the third footprint overlap. \<^verbatim>\<open>init\<close> takes the larger of
  width over height and height over width as the aspect ratio, and \<^verbatim>\<open>growRight\<close> and
  \<^verbatim>\<open>growDown\<close> use it as width over height; for \<^verbatim>\<open>Packer\<close>, and for a
  \<^verbatim>\<open>GrowingPacker\<close> made at least as wide as high, the footprints are apart and inside
  the root in exact arithmetic, as proved above.
\<close>

theorem growing_portrait_overlap:
  "map_sum id (\<lambda>(this, blocks). map footprint blocks)
     (GrowingPacker_fit (GrowingPacker_init 8 64) [blk 8 64, blk 8 64, blk 8 3]) =
     Inr [Some (0, 0, 8, 64), None, Some (0, 2, 8, 3)] \<and>
   overlap (0, 0, 8, 64) (0, 2, 8, 3)"
  by (simp add: run_defs)

text \<open>
  C2, at the same packer. The claim is that every placed footprint lies inside the root
  as it stands at the end of the run. After two blocks of 8 by 64 the root is 16 by 2 and
  the first block, placed at (0, 0), is 64 high.
\<close>

theorem growing_portrait_not_contained:
  "map_sum id (\<lambda>(this, blocks). (root this, map footprint blocks))
     (GrowingPacker_fit (GrowingPacker_init 8 64) [blk 8 64, blk 8 64]) =
     Inr (Node 0 0 16 2 True (Some (region 8 0 8 2))
            (Some (Node 0 0 8 64 True (Some (region 8 0 0 64)) (Some (region 0 64 8 0)))),
          [Some (0, 0, 8, 64), None]) \<and>
   \<not> inside (0, 0, 8, 64)
       (Node 0 0 16 2 True (Some (region 8 0 8 2))
            (Some (Node 0 0 8 64 True (Some (region 8 0 0 64)) (Some (region 0 64 8 0)))))"
  by (simp add: run_defs)

text \<open>
  C3, at the same packer. The claim is that the root's width and height never decrease.
  When the second block of 8 by 64 is processed the root is 8 by 64; \<^verbatim>\<open>growNode\<close> takes
  \<^verbatim>\<open>growRight\<close>, and the new root is 16 by 2. In a packer made at least as wide as high
  no step makes the root narrower or lower in exact arithmetic, as proved above.
\<close>

theorem growing_portrait_shrinks:
  "map_sum id (\<lambda>(this, blocks). this) (GrowingPacker_fit (GrowingPacker_init 8 64) [blk 8 64]) =
     Inr \<lparr>aspectRatio = 8,
          root = Node 0 0 8 64 True (Some (region 8 0 0 64)) (Some (region 0 64 8 0))\<rparr> \<and>
   (let this = \<lparr>aspectRatio = 8,
          root = Node 0 0 8 64 True (Some (region 8 0 0 64)) (Some (region 0 64 8 0))\<rparr>
    in growNode this 8 64 = growRight this 8 64 \<and>
       map_sum id (\<lambda>(this', nd). (node_width (root this'), node_height (root this')))
         (growRight this 8 64) = Inr (16, 2) \<and>
       node_height (root this) = 64)"
  by (simp add: run_defs)

text \<open>
  C5, at the same packer. The claim is that a block is left unplaced exactly when it is
  both wider and taller than the current root. The second block of 8 by 64 is neither
  wider nor taller than the root of 8 by 64, and it is left unplaced: the strip that
  \<^verbatim>\<open>growRight\<close> adds is 2 high. The run goes on: a third block of 8 by 1 is placed in
  that strip. In a packer made at least as wide as high a block is left unplaced exactly
  when it is both wider and taller than the root in exact arithmetic, as proved above.
\<close>

theorem growing_portrait_rejects_fitting_block:
  "map_sum id (\<lambda>(this, blocks). this) (GrowingPacker_fit (GrowingPacker_init 8 64) [blk 8 64]) =
     Inr \<lparr>aspectRatio = 8,
          root = Node 0 0 8 64 True (Some (region 8 0 0 64)) (Some (region 0 64 8 0))\<rparr> \<and>
   (let this = \<lparr>aspectRatio = 8,
          root = Node 0 0 8 64 True (Some (region 8 0 0 64)) (Some (region 0 64 8 0))\<rparr>
    in (8 \<le> node_width (root this)) = True \<and> (64 \<le> node_height (root this)) = True \<and>
       map_sum id (\<lambda>(this', b). block_fit b) (GrowingPacker_fit_block this (blk 8 64)) = Inr None) \<and>
   map_sum id (\<lambda>(this, blocks). map block_fit blocks)
     (GrowingPacker_fit (GrowingPacker_init 8 64) [blk 8 64, blk 8 64, blk 8 1]) =
     Inr [Some (Node 0 0 8 64 True (Some (region 8 0 0 64)) (Some (region 0 64 8 0))), None,
          Some (Node 8 0 8 2 True (Some (region 16 0 0 1)) (Some (region 8 1 8 1)))]"
  by (simp add: run_defs)

end
